theory Spec2Isabelle
  imports Main "HOL-Library.Word"
begin

section \<open>Strings of the source language\<close>

text \<open>
  A string of the source is a sequence of 16-bit code units; \<open>length\<close>, \<open>substring\<close>,
  \<open>match.index\<close> and the computed positions all count code units. \<open>js\<close> embeds an
  ASCII literal.
\<close>

type_synonym jsstring = "16 word list"

definition js :: "string \<Rightarrow> jsstring" where
  "js s = map of_char s"

text \<open>
  White space as \<open>String.prototype.trim\<close> and the class \<open>\s\<close> see it: the WhiteSpace and
  LineTerminator code points (TAB, LF, VT, FF, CR, SP, NBSP, U+1680, U+2000 to U+200A,
  U+2028, U+2029, U+202F, U+205F, U+3000, U+FEFF).
\<close>

definition isSpace :: "16 word \<Rightarrow> bool" where
  "isSpace c = (c \<in> set [0x09, 0x0A, 0x0B, 0x0C, 0x0D, 0x20, 0xA0, 0x1680,
      0x2000, 0x2001, 0x2002, 0x2003, 0x2004, 0x2005, 0x2006, 0x2007, 0x2008, 0x2009, 0x200A,
      0x2028, 0x2029, 0x202F, 0x205F, 0x3000, 0xFEFF])"

text \<open>The class \<open>\w\<close> of a regular expression without the \<open>u\<close> flag: \<open>[A-Za-z0-9_]\<close>.\<close>

definition isWordChar :: "16 word \<Rightarrow> bool" where
  "isWordChar c = ((0x41 \<le> c \<and> c \<le> 0x5A) \<or> (0x61 \<le> c \<and> c \<le> 0x7A)
      \<or> (0x30 \<le> c \<and> c \<le> 0x39) \<or> c = 0x5F)"

text \<open>
  The assertion \<open>\b\<close> at index \<open>e\<close>: exactly one of the code units at \<open>e - 1\<close> and \<open>e\<close>
  is a word character, where an index outside the string counts as not a word character.
\<close>

definition isWordBoundary :: "jsstring \<Rightarrow> nat \<Rightarrow> bool" where
  "isWordBoundary s e =
     (let a = (0 < e \<and> e - 1 < length s \<and> isWordChar (s ! (e - 1)));
          b = (e < length s \<and> isWordChar (s ! e))
      in a \<noteq> b)"

text \<open>
  Case folding of the \<open>i\<close> flag (without \<open>u\<close>), as far as the two patterns need it: an
  ASCII lower-case letter goes to its upper-case letter; a code unit of 128 or more never
  folds to an ASCII one, so it is left alone here.
\<close>

definition canonicalize :: "16 word \<Rightarrow> 16 word" where
  "canonicalize ch = (if 0x61 \<le> ch \<and> ch \<le> 0x7A then ch - 0x20 else ch)"

datatype kind = TODO | TK

fun token :: "kind \<Rightarrow> jsstring" where
  "token TODO = [0x54, 0x4F, 0x44, 0x4F]"
| "token TK = [0x54, 0x4B]"

text \<open>Does \<open>/\bTODO\b/i\<close> (or \<open>/\bTK\b/i\<close>) match the line at index \<open>i\<close>?\<close>

definition matchAt :: "kind \<Rightarrow> jsstring \<Rightarrow> nat \<Rightarrow> bool" where
  "matchAt k s i =
     (isWordBoundary s i
      \<and> i + length (token k) \<le> length s
      \<and> map canonicalize (take (length (token k)) (drop i s)) = token k
      \<and> isWordBoundary s (i + length (token k)))"

text \<open>
  \<open>regex.exec(line)\<close> of a global regular expression whose \<open>lastIndex\<close> is \<open>i\<close>: the index
  of the first match at or after \<open>i\<close>, or \<open>None\<close> for \<open>null\<close> (no index up to the length of
  the line matches).
\<close>

function regexExec :: "kind \<Rightarrow> jsstring \<Rightarrow> nat \<Rightarrow> nat option" where
  "regexExec k s i =
     (if length s < i then None
      else if matchAt k s i then Some i
      else regexExec k s (Suc i))"
  by pat_completeness auto
termination
  by (relation "measure (\<lambda>(k, s, i). Suc (length s) - i)") auto

declare regexExec.simps [simp del]

text \<open>
  The loop \<open>while ((match = regex.exec(line)) !== null) matches.push(match)\<close>: after a
  match at \<open>i\<close> the next search starts at the end of the match.
\<close>

function execAll :: "kind \<Rightarrow> jsstring \<Rightarrow> nat \<Rightarrow> nat list" where
  "execAll k s lastIndex =
     (case regexExec k s lastIndex of
        None \<Rightarrow> []
      | Some i \<Rightarrow> i # execAll k s (i + length (token k)))"
  by pat_completeness auto
termination
proof (relation "measure (\<lambda>(k, s, i). Suc (length s) - i)")
  show "wf (measure (\<lambda>(k, s, i). Suc (length s) - i))"
    by simp
next
  fix k :: kind and s :: jsstring and lastIndex i :: nat
  assume ex: "regexExec k s lastIndex = Some i"
  have "lastIndex \<le> i \<and> i + length (token k) \<le> length s"
    using ex
  proof (induction k s lastIndex rule: regexExec.induct)
    case (1 k s j)
    have unfold: "regexExec k s j =
        (if length s < j then None else if matchAt k s j then Some j
         else regexExec k s (Suc j))"
      by (rule regexExec.simps)
    show ?case
    proof (cases "matchAt k s j")
      case True
      with "1.prems" unfold have "i = j"
        by (simp split: if_splits)
      with True show ?thesis
        by (simp add: matchAt_def)
    next
      case False
      with "1.prems" unfold have "\<not> length s < j" and "regexExec k s (Suc j) = Some i"
        by (simp_all split: if_splits)
      with "1.IH" False have "Suc j \<le> i \<and> i + length (token k) \<le> length s"
        by blast
      then show ?thesis
        by simp
    qed
  qed
  moreover have "0 < length (token k)"
    by (cases k) simp_all
  ultimately have "Suc (length s) - (i + length (token k)) < Suc (length s) - lastIndex"
    by linarith
  then show "((k, s, i + length (token k)), (k, s, lastIndex))
      \<in> measure (\<lambda>(k, s, i). Suc (length s) - i)"
    by simp
qed

declare execAll.simps [simp del]

subsection \<open>Splitting, trimming, joining\<close>

text \<open>
  \<open>content.split('\n')\<close>: the empty string gives one empty line. The result is never
  empty, so the first branch of the \<open>case\<close> is never taken.
\<close>

fun splitLines :: "jsstring \<Rightarrow> jsstring list" where
  "splitLines [] = [[]]"
| "splitLines (c # cs) =
     (if c = 0x0A then [] # splitLines cs
      else (case splitLines cs of [] \<Rightarrow> [[c]] | l # ls \<Rightarrow> (c # l) # ls))"

definition trim :: "jsstring \<Rightarrow> jsstring" where
  "trim s = rev (dropWhile isSpace (rev (dropWhile isSpace s)))"

text \<open>
  \<open>s.split(/\s+/)\<close>: the pieces between the maximal runs of white space. The empty string
  gives one empty piece; a run at the start or the end gives an empty piece there. The
  result is never empty, so the first branch of the \<open>case\<close> is never taken.
\<close>

function splitWS :: "jsstring \<Rightarrow> jsstring list" where
  "splitWS [] = [[]]"
| "splitWS (c # cs) =
     (if isSpace c then [] # splitWS (dropWhile isSpace cs)
      else (case splitWS cs of [] \<Rightarrow> [[c]] | w # ws \<Rightarrow> (c # w) # ws))"
  by pat_completeness auto
termination
  by (relation "measure length") (auto simp: less_Suc_eq_le length_dropWhile_le)

text \<open>\<open>words.join(' ')\<close>.\<close>

fun join :: "jsstring list \<Rightarrow> jsstring" where
  "join [] = []"
| "join [w] = w"
| "join (w # ws) = w @ [0x20] @ join ws"

subsection \<open>The extractor\<close>

record TodoTkItem =
  item_type :: kind
  item_text :: jsstring
  item_line :: nat
  item_position :: nat

text \<open>
  The loop \<open>for (let i = 0; i < lineIndex; i++) position += lines[i].length + 1\<close>,
  started from \<open>position = 0\<close>.
\<close>

fun positionLoop :: "jsstring list \<Rightarrow> nat \<Rightarrow> nat" where
  "positionLoop lines 0 = 0"
| "positionLoop lines (Suc i) = positionLoop lines i + (length (lines ! i) + 1)"

text \<open>Decimal rendering of a number inside a template literal.\<close>

fun showNat :: "nat \<Rightarrow> string" where
  "showNat n =
     (if n < 10 then [char_of (48 + n)]
      else showNat (n div 10) @ [char_of (48 + n mod 10)])"

declare showNat.simps [simp del]

text \<open>The template literals \<open>`${lineIndex}-${startPos}-TODO`\<close> and \<open>`${lineIndex}-${startPos}-TK`\<close>.\<close>

fun kindName :: "kind \<Rightarrow> string" where
  "kindName TODO = ''TODO''"
| "kindName TK = ''TK''"

definition positionKey :: "nat \<Rightarrow> nat \<Rightarrow> kind \<Rightarrow> string" where
  "positionKey lineIndex startPos k =
     showNat lineIndex @ ''-'' @ showNat startPos @ ''-'' @ kindName k"

text \<open>The text of an item: ten words after a TODO, three words before a TK.\<close>

definition todoText :: "jsstring \<Rightarrow> nat \<Rightarrow> jsstring" where
  "todoText line startPos =
     (let afterTodo = drop (startPos + 4) line;
          words = take 10 (splitWS (trim afterTodo))
      in join words)"

definition tkText :: "jsstring \<Rightarrow> nat \<Rightarrow> jsstring" where
  "tkText line startPos =
     (let beforeTk = trim (take startPos line);
          words = splitWS beforeTk;
          threeWords = join (drop (length words - 3) words)
      in threeWords)"

fun snippet :: "kind \<Rightarrow> jsstring \<Rightarrow> nat \<Rightarrow> jsstring" where
  "snippet TODO line startPos = todoText line startPos"
| "snippet TK line startPos = tkText line startPos"

text \<open>
  The body of \<open>todoMatches.forEach\<close> and of \<open>tkMatches.forEach\<close>, on the pair of the
  item list and the set of seen keys. The \<open>index\<close> of a match that \<open>exec\<close> returns is
  always a number, so the guard of the TODO loop against an undefined or null \<open>startPos\<close>
  never fires and has no branch here.
\<close>

definition matchStep :: "kind \<Rightarrow> jsstring list \<Rightarrow> jsstring \<Rightarrow> nat
    \<Rightarrow> TodoTkItem list \<times> string set \<Rightarrow> nat \<Rightarrow> TodoTkItem list \<times> string set" where
  "matchStep k lines line lineIndex st startPos =
     (let items = fst st; seenPositions = snd st;
          key = positionKey lineIndex startPos k
      in if key \<in> seenPositions then (items, seenPositions)
         else
           (let text = snippet k line startPos;
                position = positionLoop lines lineIndex + startPos
            in (items @ [\<lparr>item_type = k, item_text = text, item_line = lineIndex,
                           item_position = position\<rparr>],
                insert key seenPositions)))"

text \<open>The body of \<open>lines.forEach((line, lineIndex) => ...)\<close>.\<close>

definition lineStep :: "jsstring list \<Rightarrow> TodoTkItem list \<times> string set \<Rightarrow> nat \<times> jsstring
    \<Rightarrow> TodoTkItem list \<times> string set" where
  "lineStep lines st il =
     (let lineIndex = fst il; line = snd il;
          todoMatches = execAll TODO line 0;
          st1 = foldl (matchStep TODO lines line lineIndex) st todoMatches;
          tkMatches = execAll TK line 0
      in foldl (matchStep TK lines line lineIndex) st1 tkMatches)"

definition parseContent :: "jsstring \<Rightarrow> TodoTkItem list" where
  "parseContent content =
     (let lines = splitLines content
      in fst (foldl (lineStep lines) ([], {}) (enumerate 0 lines)))"

section \<open>The view\<close>

subsection \<open>The host application and its timers\<close>

text \<open>
  A \<open>MarkdownView\<close> object of the host, as far as the view reads it: \<open>editor\<close> is \<open>None\<close>
  when \<open>view.editor\<close> is missing and holds what \<open>editor.getValue()\<close> returns otherwise;
  \<open>view_file\<close> is \<open>None\<close> when \<open>view.file\<close> is null and holds \<open>file.path\<close> otherwise. The view keeps
  a reference to such an object while the host changes its fields, so the objects live in
  a heap and are named by references.
\<close>

type_synonym path = string
type_synonym viewref = nat
type_synonym handle = nat

record MarkdownView =
  editor :: "jsstring option"
  view_file :: "path option"

text \<open>
  \<open>this.app.workspace\<close>: the views of \<open>getLeavesOfType('markdown')\<close>, in order, and the
  result of \<open>getActiveViewOfType(MarkdownView)\<close>.
\<close>

record host =
  heap :: "viewref \<Rightarrow> MarkdownView"
  markdownLeaves :: "viewref list"
  activeMarkdownView :: "viewref option"

text \<open>
  What a timer runs when it is due. \<open>Debounced\<close> is the callback of the timeout that the
  change listener sets; \<open>OpenFirst\<close> and \<open>OpenRetry\<close> are the two nested callbacks of
  \<open>onOpen\<close>.
\<close>

datatype callback = Debounced | OpenFirst | OpenRetry

text \<open>
  A pending timeout with its due time, or an active interval with its next due time, its
  period and the \<open>trackedFile\<close> that its callback has captured (\<open>None\<close> for \<open>undefined\<close>).
  Times are in milliseconds.
\<close>

datatype timer = Timeout nat callback | Interval nat nat "path option"

text \<open>What the element \<open>.todo-tk-container\<close> shows.\<close>

datatype display = Blank | NoActiveFile | NoItems | Outline "TodoTkItem list"

text \<open>
  The fields of the class \<open>TodoTkView\<close>, and with them what the view acts on: the content
  element (\<open>None\<close> when \<open>querySelector\<close> finds none), the timers of the host with the next
  fresh handle and the clock, and the application. Handles are positive numbers, so a
  handle is truthy and \<open>None\<close> stands for \<open>null\<close>.
\<close>

record TodoTkView =
  items :: "TodoTkItem list"
  currentFile :: "path option"
  updateTimeout :: "handle option"
  currentMarkdownView :: "viewref option"
  pollInterval :: "handle option"
  contentEl :: "display option"
  timers :: "(handle \<times> timer) list"
  nextHandle :: handle
  now :: nat
  app :: host

definition setTimeout :: "callback \<Rightarrow> nat \<Rightarrow> TodoTkView \<Rightarrow> handle \<times> TodoTkView" where
  "setTimeout cb delay st =
     (nextHandle st,
      st\<lparr>timers := timers st @ [(nextHandle st, Timeout (now st + delay) cb)],
         nextHandle := nextHandle st + 1\<rparr>)"

definition setInterval :: "path option \<Rightarrow> nat \<Rightarrow> TodoTkView \<Rightarrow> handle \<times> TodoTkView" where
  "setInterval trackedFile period st =
     (nextHandle st,
      st\<lparr>timers := timers st @ [(nextHandle st, Interval (now st + period) period trackedFile)],
         nextHandle := nextHandle st + 1\<rparr>)"

text \<open>\<open>clearTimeout\<close> and \<open>clearInterval\<close> remove the timer of that handle, if there is one.\<close>

definition clearTimer :: "handle \<Rightarrow> TodoTkView \<Rightarrow> TodoTkView" where
  "clearTimer h st = st\<lparr>timers := filter (\<lambda>e. fst e \<noteq> h) (timers st)\<rparr>"

definition clearTimeout :: "handle \<Rightarrow> TodoTkView \<Rightarrow> TodoTkView" where
  "clearTimeout h st = clearTimer h st"

definition clearInterval :: "handle \<Rightarrow> TodoTkView \<Rightarrow> TodoTkView" where
  "clearInterval h st = clearTimer h st"

subsection \<open>update\<close>

text \<open>A view with an editor and a file: the negation of \<open>!view.editor || !view.file\<close>.\<close>

definition valid :: "host \<Rightarrow> viewref \<Rightarrow> bool" where
  "valid h v = (editor (heap h v) \<noteq> None \<and> view_file (heap h v) \<noteq> None)"

text \<open>
  The first part of \<open>update\<close>: the stored view if it is still valid (a stale one is
  forgotten), else the active markdown view, else the first valid view among the markdown
  leaves; a view found this way is checked once more.
\<close>

definition resolveView :: "TodoTkView \<Rightarrow> viewref option \<times> TodoTkView" where
  "resolveView st =
     (let stored = currentMarkdownView st;
          stale = (case stored of None \<Rightarrow> False | Some v \<Rightarrow> \<not> valid (app st) v);
          markdownView = (if stale then None else stored);
          st1 = (if stale then st\<lparr>currentMarkdownView := None\<rparr> else st)
      in case markdownView of
           Some v \<Rightarrow> (Some v, st1)
         | None \<Rightarrow>
             (if markdownLeaves (app st1) = [] then (None, st1)
              else
                (let found = (case activeMarkdownView (app st1) of
                                Some v \<Rightarrow> Some v
                              | None \<Rightarrow> find (valid (app st1)) (markdownLeaves (app st1)));
                     checked = (case found of
                                  None \<Rightarrow> None
                                | Some v \<Rightarrow> if valid (app st1) v then Some v else None)
                 in (checked, st1))))"

text \<open>The branch of \<open>update\<close> for no markdown view.\<close>

definition noActiveFile :: "TodoTkView \<Rightarrow> TodoTkView" where
  "noActiveFile st =
     st\<lparr>contentEl := Some NoActiveFile, currentFile := None, currentMarkdownView := None\<rparr>"

definition setupEditorChangeListener :: "viewref \<Rightarrow> TodoTkView \<Rightarrow> TodoTkView" where
  "setupEditorChangeListener markdownView st =
     (let st1 = st\<lparr>currentMarkdownView := Some markdownView\<rparr>;
          trackedFile = view_file (heap (app st1) markdownView);
          st2 = (case pollInterval st1 of None \<Rightarrow> st1 | Some h \<Rightarrow> clearInterval h st1);
          hs = setInterval trackedFile 500 st2
      in (snd hs)\<lparr>pollInterval := Some (fst hs)\<rparr>)"

definition render :: "TodoTkItem list \<Rightarrow> display" where
  "render its = (if its = [] then NoItems else Outline its)"

text \<open>
  \<open>update()\<close>. \<open>file.path || null\<close> turns the empty path into null. The listener is set up
  when \<open>!this.pollInterval || markdownView.file?.path !== this.currentFile\<close>, evaluated
  after \<open>this.currentFile\<close> has been assigned.
\<close>

definition update :: "TodoTkView \<Rightarrow> TodoTkView" where
  "update st =
     (case contentEl st of
        None \<Rightarrow> st
      | Some _ \<Rightarrow>
          (let r = resolveView (st\<lparr>contentEl := Some Blank\<rparr>);
               st1 = snd r
           in case fst r of
                None \<Rightarrow> noActiveFile st1
              | Some v \<Rightarrow>
                  (case editor (heap (app st1) v) of
                     None \<Rightarrow> noActiveFile st1
                   | Some content \<Rightarrow>
                       (case view_file (heap (app st1) v) of
                          None \<Rightarrow> noActiveFile st1
                        | Some p \<Rightarrow>
                            (let st2 = st1\<lparr>currentFile := (if p = [] then None else Some p),
                                          currentMarkdownView := Some v\<rparr>;
                                 st3 = st2\<lparr>items := parseContent content\<rparr>;
                                 st4 = (if pollInterval st3 = None \<or> Some p \<noteq> currentFile st3
                                        then setupEditorChangeListener v
                                          (case pollInterval st3 of
                                             None \<Rightarrow> st3
                                           | Some h \<Rightarrow> (clearInterval h st3)\<lparr>pollInterval := None\<rparr>)
                                        else st3)
                             in st4\<lparr>contentEl := Some (render (items st4))\<rparr>)))))"

subsection \<open>The change listener\<close>

text \<open>
  The comparison of the sampled items with the rendered ones: the lengths differ, or the
  \<open>JSON.stringify\<close> texts of the two lists of \<open>{text, line}\<close> objects differ. The
  serialisation determines the list of pairs and is determined by it, so the texts are
  equal exactly when the lists of pairs are.
\<close>

definition itemsChanged :: "TodoTkItem list \<Rightarrow> TodoTkItem list \<Rightarrow> bool" where
  "itemsChanged currentItems its =
     (length currentItems \<noteq> length its
      \<or> map (\<lambda>i. (item_text i, item_line i)) currentItems
          \<noteq> map (\<lambda>i. (item_text i, item_line i)) its)"

text \<open>What both stopping branches of the interval callback do.\<close>

definition stopPolling :: "TodoTkView \<Rightarrow> TodoTkView" where
  "stopPolling st =
     (case pollInterval st of
        None \<Rightarrow> st
      | Some h \<Rightarrow> (clearInterval h st)\<lparr>pollInterval := None\<rparr>)\<lparr>currentMarkdownView := None\<rparr>"

text \<open>The body of the debounce: \<open>clearTimeout\<close> of a set handle and a new timeout of 200 ms.\<close>

definition scheduleUpdate :: "TodoTkView \<Rightarrow> TodoTkView" where
  "scheduleUpdate st =
     (let st1 = (case updateTimeout st of None \<Rightarrow> st | Some h \<Rightarrow> clearTimeout h st);
          hs = setTimeout Debounced 200 st1
      in (snd hs)\<lparr>updateTimeout := Some (fst hs)\<rparr>)"

text \<open>The callback of the interval, with the \<open>trackedFile\<close> it has captured.\<close>

definition pollTick :: "path option \<Rightarrow> TodoTkView \<Rightarrow> TodoTkView" where
  "pollTick trackedFile st =
     (case currentMarkdownView st of
        None \<Rightarrow> stopPolling st
      | Some v \<Rightarrow>
          (case editor (heap (app st) v) of
             None \<Rightarrow> stopPolling st
           | Some currentContent \<Rightarrow>
               (case view_file (heap (app st) v) of
                  None \<Rightarrow> stopPolling st
                | Some p \<Rightarrow>
                    if Some p = trackedFile \<and> trackedFile = currentFile st
                    then (if itemsChanged (parseContent currentContent) (items st)
                          then scheduleUpdate st else st)
                    else stopPolling st)))"

subsection \<open>Opening, closing and the run of the timers\<close>

definition onOpen :: "TodoTkView \<Rightarrow> TodoTkView" where
  "onOpen st = snd (setTimeout OpenFirst 100 (st\<lparr>contentEl := Some Blank\<rparr>))"

definition onClose :: "TodoTkView \<Rightarrow> TodoTkView" where
  "onClose st =
     (let st1 = (case updateTimeout st of
                   None \<Rightarrow> st
                 | Some h \<Rightarrow> (clearTimeout h st)\<lparr>updateTimeout := None\<rparr>);
          st2 = (case pollInterval st1 of
                   None \<Rightarrow> st1
                 | Some h \<Rightarrow> (clearInterval h st1)\<lparr>pollInterval := None\<rparr>)
      in st2\<lparr>currentMarkdownView := None\<rparr>)"

fun runCallback :: "callback \<Rightarrow> TodoTkView \<Rightarrow> TodoTkView" where
  "runCallback Debounced st = update st"
| "runCallback OpenFirst st = snd (setTimeout OpenRetry 500 (update st))"
| "runCallback OpenRetry st = (if currentFile st = None then update st else st)"

text \<open>
  The host runs the timer of handle \<open>h\<close>, if it is due: a timeout leaves the list and its
  callback runs; an interval gets its next due time and its callback runs.
\<close>

definition fire :: "handle \<Rightarrow> TodoTkView \<Rightarrow> TodoTkView" where
  "fire h st =
     (case map_of (timers st) h of
        None \<Rightarrow> st
      | Some (Timeout due cb) \<Rightarrow>
          if due \<le> now st then runCallback cb (clearTimer h st) else st
      | Some (Interval due period trackedFile) \<Rightarrow>
          if due \<le> now st
          then pollTick trackedFile
            (st\<lparr>timers := map (\<lambda>e. if fst e = h
                then (h, Interval (due + period) period trackedFile) else e) (timers st)\<rparr>)
          else st)"

text \<open>
  \<open>updateView()\<close> of the plugin: it calls \<open>update()\<close> on the view of every leaf of the
  panel's type; there is the one panel here.
\<close>

definition updateView :: "TodoTkView \<Rightarrow> TodoTkView" where
  "updateView st = update st"

text \<open>
  What can happen to the view: the host changes (an edit, a file opened or closed, another
  view activated), time passes, the plugin calls \<open>update()\<close> when the delay after an
  active-leaf-change, file-open or layout-ready notification is over (\<open>Update\<close>), the
  vault notifies a modification, on which the plugin calls \<open>updateView()\<close> at once with no
  timer in between (\<open>Modify\<close>), a timer runs, the panel opens or closes.
\<close>

datatype event = HostChange host | Advance nat | Update | Modify | Fire handle | Open | Close

fun step :: "event \<Rightarrow> TodoTkView \<Rightarrow> TodoTkView" where
  "step (HostChange h) st = st\<lparr>app := h\<rparr>"
| "step (Advance d) st = st\<lparr>now := now st + d\<rparr>"
| "step Update st = update st"
| "step Modify st = updateView st"
| "step (Fire h) st = fire h st"
| "step Open st = onOpen st"
| "step Close st = onClose st"

text \<open>The view as its constructor leaves it, before \<open>onOpen\<close>.\<close>

definition initial :: "host \<Rightarrow> TodoTkView" where
  "initial h =
     \<lparr>items = [], currentFile = None, updateTimeout = None, currentMarkdownView = None,
      pollInterval = None, contentEl = None, timers = [], nextHandle = 1, now = 0, app = h\<rparr>"

definition run :: "event list \<Rightarrow> TodoTkView \<Rightarrow> TodoTkView" where
  "run es st = foldl (\<lambda>s e. step e s) st es"

inductive reachable :: "TodoTkView \<Rightarrow> bool" where
  at_start: "reachable (initial h)"
| after_step: "reachable st \<Longrightarrow> reachable (step e st)"

subsection \<open>The items of one line, without the set of seen keys\<close>

text \<open>
  The item that the body of \<open>forEach\<close> pushes for a match at \<open>startPos\<close>, and the items of
  a whole line and of a whole document when no match is skipped. The extractor is shown
  below to compute exactly these.
\<close>

definition mkItem :: "kind \<Rightarrow> jsstring list \<Rightarrow> jsstring \<Rightarrow> nat \<Rightarrow> nat \<Rightarrow> TodoTkItem" where
  "mkItem k lines line lineIndex startPos =
     \<lparr>item_type = k, item_text = snippet k line startPos, item_line = lineIndex,
      item_position = positionLoop lines lineIndex + startPos\<rparr>"

definition lineItems :: "jsstring list \<Rightarrow> nat \<times> jsstring \<Rightarrow> TodoTkItem list" where
  "lineItems lines il =
     map (mkItem TODO lines (snd il) (fst il)) (execAll TODO (snd il) 0)
     @ map (mkItem TK lines (snd il) (fst il)) (execAll TK (snd il) 0)"

subsection \<open>Words, as the specification speaks of them\<close>

text \<open>
  The white-space-delimited words of a string: its maximal runs of code units that are not
  white space, from left to right. This definition follows the specification's wording, not
  the source; the snippets of the extractor are compared with it below.
\<close>

function wordsOf :: "jsstring \<Rightarrow> jsstring list" where
  "wordsOf s =
     (let t = dropWhile isSpace s
      in if t = [] then []
         else takeWhile (\<lambda>c. \<not> isSpace c) t # wordsOf (dropWhile (\<lambda>c. \<not> isSpace c) t))"
  by pat_completeness auto
termination
proof (relation "measure length")
  show "wf (measure length)"
    by simp
next
  fix s t :: jsstring
  assume t: "t = dropWhile isSpace s" and ne: "t \<noteq> []"
  then have "\<not> isSpace (hd t)"
    using hd_dropWhile [of isSpace s] by simp
  with ne have "dropWhile (\<lambda>c. \<not> isSpace c) t = dropWhile (\<lambda>c. \<not> isSpace c) (tl t)"
    by (cases t) simp_all
  then have "length (dropWhile (\<lambda>c. \<not> isSpace c) t) \<le> length (tl t)"
    using length_dropWhile_le [of "\<lambda>c. \<not> isSpace c" "tl t"] by (simp only:)
  also from ne have "\<dots> < length t"
    by (cases t) simp_all
  also from t have "\<dots> \<le> length s"
    by (simp add: length_dropWhile_le)
  finally show "(dropWhile (\<lambda>c. \<not> isSpace c) t, s) \<in> measure length"
    by simp
qed

declare wordsOf.simps [simp del]

text \<open>The first up-to-\<open>n\<close> and the last up-to-\<open>n\<close> elements of a list.\<close>

definition firstUpTo :: "nat \<Rightarrow> 'a list \<Rightarrow> 'a list" where
  "firstUpTo n xs = take n xs"

definition lastUpTo :: "nat \<Rightarrow> 'a list \<Rightarrow> 'a list" where
  "lastUpTo n xs = rev (take n (rev xs))"

text \<open>
  A text is trimmed and single-spaced when it is its own words with one space (U+0020)
  between neighbours: no white space at either end, and no other white space inside.
\<close>

definition singleSpaced :: "jsstring \<Rightarrow> bool" where
  "singleSpaced t = (join (wordsOf t) = t)"

subsection \<open>Occurrences, adjacency and order, as the specification speaks of them\<close>

text \<open>
  These definitions follow the specification's wording. A token occurs at index \<open>i\<close> of a
  line when the code units there spell the token up to case. An occurrence is adjacent to
  a code unit of a class \<open>P\<close> when the code unit just before it or just after it is in
  \<open>P\<close>. An occurrence at index \<open>i\<close> of line \<open>l\<close> is emitted when the output holds an item of
  that kind and line whose position is the offset of the line plus \<open>i\<close>.
\<close>

definition occursAt :: "kind \<Rightarrow> jsstring \<Rightarrow> nat \<Rightarrow> bool" where
  "occursAt k s i =
     (i + length (token k) \<le> length s
      \<and> map canonicalize (take (length (token k)) (drop i s)) = token k)"

definition isAlphaNum :: "16 word \<Rightarrow> bool" where
  "isAlphaNum c = ((0x41 \<le> c \<and> c \<le> 0x5A) \<or> (0x61 \<le> c \<and> c \<le> 0x7A)
      \<or> (0x30 \<le> c \<and> c \<le> 0x39))"

definition adjacentTo :: "(16 word \<Rightarrow> bool) \<Rightarrow> kind \<Rightarrow> jsstring \<Rightarrow> nat \<Rightarrow> bool" where
  "adjacentTo P k s i =
     ((0 < i \<and> P (s ! (i - 1)))
      \<or> (i + length (token k) < length s \<and> P (s ! (i + length (token k)))))"

definition emitted :: "jsstring \<Rightarrow> kind \<Rightarrow> nat \<Rightarrow> nat \<Rightarrow> bool" where
  "emitted content k l i =
     list_ex (\<lambda>it. item_type it = k \<and> item_line it = l
        \<and> item_position it = positionLoop (splitLines content) l + i) (parseContent content)"

text \<open>
  The order of the output: an item comes before another when its line is earlier, or on
  the same line when it is a TODO and the other a TK, or when both are of one kind and it
  lies further left.
\<close>

definition itemBefore :: "TodoTkItem \<Rightarrow> TodoTkItem \<Rightarrow> bool" where
  "itemBefore a b =
     (item_line a < item_line b
      \<or> (item_line a = item_line b
          \<and> ((item_type a = TODO \<and> item_type b = TK)
              \<or> (item_type a = item_type b \<and> item_position a < item_position b))))"

text \<open>The triple of line index, in-line offset and kind of an item.\<close>

definition itemTriple :: "jsstring list \<Rightarrow> TodoTkItem \<Rightarrow> nat \<times> nat \<times> kind" where
  "itemTriple lines it =
     (item_line it, item_position it - positionLoop lines (item_line it), item_type it)"

subsection \<open>Monitors and pending refreshes, as the specification speaks of them\<close>

text \<open>
  An active change monitor is an interval among the timers; a pending debounced refresh is
  a timeout among them whose callback is the debounced \<open>update\<close>.
\<close>

fun isInterval :: "timer \<Rightarrow> bool" where
  "isInterval (Interval due period trackedFile) = True"
| "isInterval (Timeout due cb) = False"

fun isDebounced :: "timer \<Rightarrow> bool" where
  "isDebounced (Timeout due cb) = (cb = Debounced)"
| "isDebounced (Interval due period trackedFile) = False"

definition monitors :: "TodoTkView \<Rightarrow> (handle \<times> timer) list" where
  "monitors st = filter (\<lambda>e. isInterval (snd e)) (timers st)"

definition pendingRefreshes :: "TodoTkView \<Rightarrow> (handle \<times> timer) list" where
  "pendingRefreshes st = filter (\<lambda>e. isDebounced (snd e)) (timers st)"

text \<open>
  Two item lists are equal for the monitor when they have equal length and the same
  snippet and line index at every index; positions and kinds are not compared.
\<close>

definition sameSnippetsAndLines :: "TodoTkItem list \<Rightarrow> TodoTkItem list \<Rightarrow> bool" where
  "sameSnippetsAndLines xs ys =
     (length xs = length ys
      \<and> list_all2 (\<lambda>x y. item_text x = item_text y \<and> item_line x = item_line y) xs ys)"





text \<open>
  The bookkeeping of the timers that every reachable state keeps: handles are distinct
  and below the next fresh one, every interval is the one \<open>pollInterval\<close> names, and every
  debounced timeout is the one \<open>updateTimeout\<close> names.
\<close>

definition timersOk :: "TodoTkView \<Rightarrow> bool" where
  "timersOk st =
     (distinct (map fst (timers st))
      \<and> list_all (\<lambda>e. fst e < nextHandle st) (timers st)
      \<and> list_all (\<lambda>e. isInterval (snd e) \<longrightarrow> pollInterval st = Some (fst e)) (timers st)
      \<and> list_all (\<lambda>e. isDebounced (snd e) \<longrightarrow> updateTimeout st = Some (fst e)) (timers st))"

subsection \<open>Hosts for the examples\<close>

text \<open>
  A host whose one markdown view, of reference 0, shows the given content of the file of
  the given path and is active; and a host with no markdown view left, where every view
  object has lost its editor and its file.
\<close>

definition docHost :: "jsstring \<Rightarrow> path \<Rightarrow> host" where
  "docHost content p =
     \<lparr>heap = (\<lambda>v. \<lparr>editor = Some content, view_file = Some p\<rparr>),
      markdownLeaves = [0], activeMarkdownView = Some 0\<rparr>"

definition emptyHost :: host where
  "emptyHost =
     \<lparr>heap = (\<lambda>v. \<lparr>editor = None, view_file = None\<rparr>),
      markdownLeaves = [], activeMarkdownView = None\<rparr>"

section \<open>Properties of the extractor\<close>

subsection \<open>The matches of one line\<close>


lemma token_length_pos: "0 < length (token k)"
  by (cases k) simp_all

lemma regexExec_unfold:
  "regexExec k s i =
     (if length s < i then None else if matchAt k s i then Some i else regexExec k s (Suc i))"
  by (rule regexExec.simps)

lemma matchAt_bound: "matchAt k s i \<Longrightarrow> i + length (token k) \<le> length s"
  by (simp add: matchAt_def)

lemma regexExec_Some:
  "regexExec k s i = Some j \<Longrightarrow>
     i \<le> j \<and> matchAt k s j \<and> (\<forall>m. i \<le> m \<and> m < j \<longrightarrow> \<not> matchAt k s m)"
proof (induction k s i rule: regexExec.induct)
  case (1 k s i)
  show ?case
  proof (cases "matchAt k s i")
    case True
    with "1.prems" have "j = i"
      by (simp add: regexExec_unfold [of k s i] split: if_splits)
    with True show ?thesis
      by auto
  next
    case False
    with "1.prems" have le: "\<not> length s < i" and rec: "regexExec k s (Suc i) = Some j"
      by (simp_all add: regexExec_unfold [of k s i] split: if_splits)
    from "1.IH" [OF le False rec]
    have ih: "Suc i \<le> j" "matchAt k s j" "\<forall>m. Suc i \<le> m \<and> m < j \<longrightarrow> \<not> matchAt k s m"
      by simp_all
    have "\<not> matchAt k s m" if "i \<le> m" "m < j" for m
    proof (cases "m = i")
      case True
      with False show ?thesis by simp
    next
      case False
      with that ih(3) show ?thesis by simp
    qed
    with ih show ?thesis
      by simp
  qed
qed

lemma regexExec_None:
  "regexExec k s i = None \<Longrightarrow> i \<le> m \<Longrightarrow> \<not> matchAt k s m"
proof (induction k s i rule: regexExec.induct)
  case (1 k s i)
  show ?case
  proof (cases "length s < i")
    case True
    with "1.prems"(2) token_length_pos [of k] show ?thesis
      by (auto dest!: matchAt_bound)
  next
    case False
    with "1.prems"(1) have nm: "\<not> matchAt k s i" and rec: "regexExec k s (Suc i) = None"
      by (simp_all add: regexExec_unfold [of k s i] split: if_splits)
    show ?thesis
    proof (cases "m = i")
      case True
      with nm show ?thesis by simp
    next
      case neq: False
      with "1.prems"(2) have "Suc i \<le> m" by simp
      from "1.IH" [OF False nm rec this] show ?thesis .
    qed
  qed
qed

text \<open>Inside a match no other match of the same pattern starts.\<close>

lemma canonicalize_wordchar:
  assumes "canonicalize c \<in> set (token k)"
  shows "isWordChar c"
proof (cases "0x61 \<le> c \<and> c \<le> 0x7A")
  case True
  then show ?thesis
    by (simp add: isWordChar_def)
next
  case False
  with assms have "c \<in> set (token k)"
    by (simp add: canonicalize_def)
  then have "c = 0x54 \<or> c = 0x4F \<or> c = 0x44 \<or> c = 0x4B"
    by (cases k) auto
  then show ?thesis
    by (auto simp: isWordChar_def)
qed

lemma matchAt_wordchars:
  assumes "matchAt k s i" and "i \<le> m" and "m < i + length (token k)"
  shows "m < length s \<and> isWordChar (s ! m)"
proof -
  let ?n = "length (token k)"
  from assms(1) have bound: "i + ?n \<le> length s"
    and eq: "map canonicalize (take ?n (drop i s)) = token k"
    by (simp_all add: matchAt_def)
  from assms(2,3) bound have m: "m < length s" and mi: "m - i < ?n"
    by simp_all
  from eq have "map canonicalize (take ?n (drop i s)) ! (m - i) = token k ! (m - i)"
    by simp
  moreover from mi bound assms(2)
  have "map canonicalize (take ?n (drop i s)) ! (m - i) = canonicalize (s ! m)"
    by simp
  ultimately have "canonicalize (s ! m) = token k ! (m - i)"
    by simp
  with mi have "canonicalize (s ! m) \<in> set (token k)"
    by simp
  with m show ?thesis
    by (simp add: canonicalize_wordchar)
qed

lemma matchAt_no_overlap:
  assumes "matchAt k s i" and "i < m" and "m < i + length (token k)"
  shows "\<not> matchAt k s m"
proof -
  from assms have "m - 1 < length s \<and> isWordChar (s ! (m - 1))"
    by (intro matchAt_wordchars [of k s i]) simp_all
  moreover from assms have "m < length s \<and> isWordChar (s ! m)"
    by (intro matchAt_wordchars [of k s i]) simp_all
  ultimately have "\<not> isWordBoundary s m"
    using assms(2) by (simp add: isWordBoundary_def)
  then show ?thesis
    by (simp add: matchAt_def)
qed

lemma execAll_unfold:
  "execAll k s i =
     (case regexExec k s i of None \<Rightarrow> [] | Some j \<Rightarrow> j # execAll k s (j + length (token k)))"
  by (rule execAll.simps)

lemma execAll_set: "set (execAll k s i) = {j. i \<le> j \<and> matchAt k s j}"
proof (induction k s i rule: execAll.induct)
  case (1 k s i)
  show ?case
  proof (cases "regexExec k s i")
    case None
    then have "execAll k s i = []"
      by (simp add: execAll_unfold [of k s i])
    moreover from None have "\<And>m. i \<le> m \<Longrightarrow> \<not> matchAt k s m"
      by (rule regexExec_None)
    ultimately show ?thesis
      by auto
  next
    case (Some j)
    let ?n = "length (token k)"
    from Some have unf: "execAll k s i = j # execAll k s (j + ?n)"
      by (simp add: execAll_unfold [of k s i])
    from regexExec_Some [OF Some]
    have ij: "i \<le> j" and mj: "matchAt k s j"
      and first: "\<And>m. i \<le> m \<Longrightarrow> m < j \<Longrightarrow> \<not> matchAt k s m"
      by simp_all
    from "1.IH" [OF Some]
    have ih: "set (execAll k s (j + ?n)) = {m. j + ?n \<le> m \<and> matchAt k s m}" .
    have "{m. i \<le> m \<and> matchAt k s m} = insert j {m. j + ?n \<le> m \<and> matchAt k s m}"
    proof (intro set_eqI iffI)
      fix m
      assume "m \<in> {m. i \<le> m \<and> matchAt k s m}"
      then have im: "i \<le> m" and mm: "matchAt k s m"
        by simp_all
      from first [OF im] mm have "j \<le> m"
        by (cases "m < j") auto
      moreover from matchAt_no_overlap [OF mj, of m] mm have "\<not> (j < m \<and> m < j + ?n)"
        by blast
      ultimately have "m = j \<or> j + ?n \<le> m"
        by linarith
      with mm show "m \<in> insert j {m. j + ?n \<le> m \<and> matchAt k s m}"
        by auto
    next
      fix m
      assume "m \<in> insert j {m. j + ?n \<le> m \<and> matchAt k s m}"
      with ij mj show "m \<in> {m. i \<le> m \<and> matchAt k s m}"
        by auto
    qed
    with unf ih show ?thesis
      by simp
  qed
qed

lemma execAll_sorted: "sorted_wrt (<) (execAll k s i)"
proof (induction k s i rule: execAll.induct)
  case (1 k s i)
  show ?case
  proof (cases "regexExec k s i")
    case None
    then show ?thesis
      by (simp add: execAll_unfold [of k s i])
  next
    case (Some j)
    let ?n = "length (token k)"
    from Some have unf: "execAll k s i = j # execAll k s (j + ?n)"
      by (simp add: execAll_unfold [of k s i])
    have "j < m" if "m \<in> set (execAll k s (j + ?n))" for m
    proof -
      from that have "j + ?n \<le> m"
        by (simp add: execAll_set)
      with token_length_pos [of k] show ?thesis
        by linarith
    qed
    with "1.IH" [OF Some] unf show ?thesis
      by simp
  qed
qed

lemma execAll_distinct: "distinct (execAll k s i)"
  using execAll_sorted [of k s i] by (simp add: strict_sorted_iff)

subsection \<open>The keys of seen positions never collide\<close>

lemma digit_of_char: "d < 10 \<Longrightarrow> of_char (char_of (48 + d :: nat)) = 48 + d"
  by simp

lemma digit_inject:
  assumes "char_of (48 + a :: nat) = (char_of (48 + b :: nat) :: char)" and "a < 10" and "b < 10"
  shows "a = b"
proof -
  from assms(1) have "(of_char (char_of (48 + a) :: char) :: nat) = of_char (char_of (48 + b) :: char)"
    by simp
  with assms(2,3) show ?thesis
    by simp
qed

lemma digit_not_dash: "d < 10 \<Longrightarrow> char_of (48 + d :: nat) \<noteq> CHR ''-''"
proof
  assume d: "d < 10" and "char_of (48 + d) = CHR ''-''"
  then have "(of_char (char_of (48 + d) :: char) :: nat) = of_char CHR ''-''"
    by simp
  with d show False
    by simp
qed

lemma showNat_unfold:
  "showNat n =
     (if n < 10 then [char_of (48 + n)] else showNat (n div 10) @ [char_of (48 + n mod 10)])"
  by (rule showNat.simps)

lemma showNat_nonempty: "showNat n \<noteq> []"
  by (subst showNat_unfold) simp

lemma showNat_no_dash: "CHR ''-'' \<notin> set (showNat n)"
proof (induction n rule: showNat.induct)
  case (1 n)
  show ?case
  proof (cases "n < 10")
    case True
    with digit_not_dash [of n] show ?thesis
      by (subst showNat_unfold) auto
  next
    case False
    have "n mod 10 < 10"
      by simp
    from digit_not_dash [OF this] "1.IH" [OF False] False show ?thesis
      by (subst showNat_unfold) auto
  qed
qed

lemma showNat_inject: "showNat n = showNat m \<Longrightarrow> n = m"
proof (induction n arbitrary: m rule: showNat.induct)
  case (1 n)
  show ?case
  proof (cases "n < 10")
    case n: True
    show ?thesis
    proof (cases "m < 10")
      case True
      with n "1.prems" have "char_of (48 + n) = (char_of (48 + m) :: char)"
        by (simp add: showNat_unfold [of n] showNat_unfold [of m])
      then show ?thesis
        using n True by (rule digit_inject)
    next
      case False
      with n "1.prems" have "showNat (m div 10) = []"
        by (simp add: showNat_unfold [of n] showNat_unfold [of m])
      with showNat_nonempty show ?thesis
        by blast
    qed
  next
    case n: False
    show ?thesis
    proof (cases "m < 10")
      case True
      with n "1.prems" have "showNat (n div 10) = []"
        by (simp add: showNat_unfold [of n] showNat_unfold [of m])
      with showNat_nonempty show ?thesis
        by blast
    next
      case False
      with n "1.prems" have hi: "showNat (n div 10) = showNat (m div 10)"
        and lo: "char_of (48 + n mod 10) = (char_of (48 + m mod 10) :: char)"
        by (simp_all add: showNat_unfold [of n] showNat_unfold [of m])
      from "1.IH" [OF n hi] have "n div 10 = m div 10" .
      moreover from lo have "n mod 10 = m mod 10"
        by (rule digit_inject) simp_all
      ultimately show ?thesis
        by (metis div_mult_mod_eq)
    qed
  qed
qed

lemma split_at_separator:
  assumes "xs @ c # ys = xs' @ c # ys'" and "c \<notin> set xs" and "c \<notin> set xs'"
  shows "xs = xs' \<and> ys = ys'"
proof -
  have "takeWhile (\<lambda>x. x \<noteq> c) (xs @ c # ys) = xs" if "c \<notin> set xs" for xs ys
    using that by (induction xs) auto
  with assms have "xs = xs'"
    by metis
  with assms(1) show ?thesis
    by simp
qed

lemma positionKey_inject:
  assumes "positionKey l p k = positionKey l' p' k'"
  shows "l = l' \<and> p = p' \<and> k = k'"
proof -
  from assms have "showNat l @ CHR ''-'' # (showNat p @ CHR ''-'' # kindName k)
      = showNat l' @ CHR ''-'' # (showNat p' @ CHR ''-'' # kindName k')"
    by (simp add: positionKey_def)
  from split_at_separator [OF this showNat_no_dash showNat_no_dash]
  have l: "showNat l = showNat l'"
    and rest: "showNat p @ CHR ''-'' # kindName k = showNat p' @ CHR ''-'' # kindName k'"
    by simp_all
  from split_at_separator [OF rest showNat_no_dash showNat_no_dash]
  have p: "showNat p = showNat p'" and k: "kindName k = kindName k'"
    by simp_all
  from k have "k = k'"
    by (cases k; cases k') simp_all
  with l p show ?thesis
    by (simp add: showNat_inject)
qed

subsection \<open>No match is ever skipped\<close>

lemma matchStep_fresh:
  assumes "positionKey l p k \<notin> seen"
  shows "matchStep k lines line l (its, seen) p
    = (its @ [mkItem k lines line l p], insert (positionKey l p k) seen)"
  using assms by (simp add: matchStep_def mkItem_def Let_def)

lemma foldl_matchStep:
  assumes "distinct ps" and "\<forall>p\<in>set ps. positionKey l p k \<notin> seen"
  shows "foldl (matchStep k lines line l) (its, seen) ps
    = (its @ map (mkItem k lines line l) ps, seen \<union> (\<lambda>p. positionKey l p k) ` set ps)"
  using assms
proof (induction ps arbitrary: its seen)
  case Nil
  then show ?case
    by simp
next
  case (Cons p ps)
  from Cons.prems have fresh: "positionKey l p k \<notin> seen"
    by simp
  have rest: "\<forall>q\<in>set ps. positionKey l q k \<notin> insert (positionKey l p k) seen"
  proof
    fix q
    assume q: "q \<in> set ps"
    with Cons.prems have "q \<noteq> p" and "positionKey l q k \<notin> seen"
      by auto
    then show "positionKey l q k \<notin> insert (positionKey l p k) seen"
      by (auto dest: positionKey_inject)
  qed
  from Cons.prems have "distinct ps"
    by simp
  then have "foldl (matchStep k lines line l)
      (its @ [mkItem k lines line l p], insert (positionKey l p k) seen) ps
    = ((its @ [mkItem k lines line l p]) @ map (mkItem k lines line l) ps,
       insert (positionKey l p k) seen \<union> (\<lambda>p. positionKey l p k) ` set ps)"
    using rest by (rule Cons.IH)
  with fresh show ?case
    by (simp add: matchStep_fresh)
qed

text \<open>
  While line \<open>l\<close> is scanned, every key seen so far belongs to an earlier line, or to a
  TODO of this line while its TKs are scanned.
\<close>

lemma lineStep_closed:
  assumes "seen \<subseteq> {positionKey l' p k |l' p k. l' < l}"
  shows "\<exists>seen'. lineStep lines (its, seen) (l, line) = (its @ lineItems lines (l, line), seen')
      \<and> seen' \<subseteq> {positionKey l' p k |l' p k. l' < Suc l}"
proof -
  let ?todo = "execAll TODO line 0" and ?tk = "execAll TK line 0"
  let ?seen1 = "seen \<union> (\<lambda>p. positionKey l p TODO) ` set ?todo"
  let ?seen2 = "?seen1 \<union> (\<lambda>p. positionKey l p TK) ` set ?tk"
  have fresh0: "positionKey l p k \<notin> seen" for p k
    using assms by (auto dest: positionKey_inject)
  then have "\<forall>p\<in>set ?todo. positionKey l p TODO \<notin> seen"
    by simp
  with execAll_distinct have todo: "foldl (matchStep TODO lines line l) (its, seen) ?todo
      = (its @ map (mkItem TODO lines line l) ?todo, ?seen1)"
    by (rule foldl_matchStep)
  have "\<forall>p\<in>set ?tk. positionKey l p TK \<notin> ?seen1"
    using fresh0 by (auto dest: positionKey_inject)
  with execAll_distinct have tk: "foldl (matchStep TK lines line l)
        (its @ map (mkItem TODO lines line l) ?todo, ?seen1) ?tk
      = ((its @ map (mkItem TODO lines line l) ?todo) @ map (mkItem TK lines line l) ?tk, ?seen2)"
    by (rule foldl_matchStep)
  from todo tk have "lineStep lines (its, seen) (l, line) = (its @ lineItems lines (l, line), ?seen2)"
    by (simp add: lineStep_def lineItems_def Let_def)
  moreover have "?seen2 \<subseteq> {positionKey l' p k |l' p k. l' < Suc l}"
  proof
    fix key
    assume "key \<in> ?seen2"
    then consider "key \<in> seen" | "\<exists>p k. key = positionKey l p k"
      by blast
    then show "key \<in> {positionKey l' p k |l' p k. l' < Suc l}"
    proof cases
      case 1
      with assms obtain l' p k where "key = positionKey l' p k" and "l' < l"
        by blast
      then have "key = positionKey l' p k \<and> l' < Suc l"
        by simp
      then show ?thesis
        by blast
    next
      case 2
      then obtain p k where "key = positionKey l p k \<and> l < Suc l"
        by auto
      then show ?thesis
        by blast
    qed
  qed
  ultimately show ?thesis
    by blast
qed

lemma foldl_lineStep_closed:
  assumes "seen \<subseteq> {positionKey l' p k |l' p k. l' < n}"
  shows "fst (foldl (lineStep lines) (its, seen) (enumerate n ls))
    = its @ concat (map (lineItems lines) (enumerate n ls))"
  using assms
proof (induction ls arbitrary: n its seen)
  case Nil
  then show ?case
    by simp
next
  case (Cons line ls)
  from lineStep_closed [OF Cons.prems, of lines its line]
  obtain seen' where step: "lineStep lines (its, seen) (n, line) = (its @ lineItems lines (n, line), seen')"
    and inv: "seen' \<subseteq> {positionKey l' p k |l' p k. l' < Suc n}"
    by blast
  from Cons.IH [OF inv, of "its @ lineItems lines (n, line)"] step show ?case
    by simp
qed

text \<open>The extractor emits, line after line, the TODO matches and then the TK matches.\<close>

lemma parseContent_closed:
  "parseContent content
    = concat (map (lineItems (splitLines content)) (enumerate 0 (splitLines content)))"
proof -
  have "({} :: string set) \<subseteq> {positionKey l' p k |l' p k. l' < 0}"
    by simp
  from foldl_lineStep_closed [OF this, of "splitLines content" "[]" "splitLines content"]
  show ?thesis
    by (simp add: parseContent_def Let_def)
qed

subsection \<open>Lines and absolute positions\<close>

lemma splitLines_nonempty: "splitLines s \<noteq> []"
  by (induction s) (auto split: list.splits)

text \<open>Joining the lines with line feeds gives the document back.\<close>

lemma splitLines_Cons:
  "splitLines (c # cs) =
     (if c = 0x0A then [] # splitLines cs
      else (c # hd (splitLines cs)) # tl (splitLines cs))"
  using splitLines_nonempty [of cs] by (cases "splitLines cs") simp_all

lemma positionLoop_sum:
  "l \<le> length ls \<Longrightarrow> positionLoop ls l = sum_list (map (\<lambda>x. length x + 1) (take l ls))"
proof (induction l)
  case 0
  then show ?case by simp
next
  case (Suc l)
  then show ?case
    by (simp add: take_Suc_conv_app_nth)
qed

lemma positionLoop_Cons: "l \<le> length ls \<Longrightarrow> positionLoop (x # ls) (Suc l) = length x + 1 + positionLoop ls l"
  by (simp add: positionLoop_sum del: positionLoop.simps)

text \<open>
  The line \<open>l\<close> of the document is the part of the document that starts at the computed
  offset of that line.
\<close>

lemma line_at_offset:
  assumes "l < length (splitLines s)"
  shows "take (length (splitLines s ! l)) (drop (positionLoop (splitLines s) l) s) = splitLines s ! l"
  using assms
proof (induction s arbitrary: l)
  case Nil
  then show ?case
    by simp
next
  case (Cons c cs)
  let ?ls = "splitLines cs"
  obtain x xs where ls: "?ls = x # xs"
    using splitLines_nonempty [of cs] by (cases ?ls) auto
  show ?case
  proof (cases "c = 0x0A")
    case nl: True
    then have sp: "splitLines (c # cs) = [] # ?ls"
      by simp
    show ?thesis
    proof (cases l)
      case 0
      with sp show ?thesis by simp
    next
      case (Suc l')
      with Cons.prems sp have l': "l' < length ?ls"
        by simp
      then have "positionLoop ([] # ?ls) (Suc l') = 1 + positionLoop ?ls l'"
        using positionLoop_Cons [of l' ?ls "[]"] by simp
      with Cons.IH [OF l'] sp Suc show ?thesis
        by simp
    qed
  next
    case False
    then have sp: "splitLines (c # cs) = (c # x) # xs"
      by (simp add: ls)
    show ?thesis
    proof (cases l)
      case 0
      from Cons.IH [of 0] ls have "take (length x) cs = x"
        by simp
      with sp 0 show ?thesis
        by simp
    next
      case (Suc l')
      with Cons.prems sp ls have l': "Suc l' < length ?ls"
        by simp
      then have "l' \<le> length xs"
        by (simp add: ls)
      then have "positionLoop ((c # x) # xs) (Suc l') = Suc (length x) + 1 + positionLoop xs l'"
        and "positionLoop (x # xs) (Suc l') = length x + 1 + positionLoop xs l'"
        using positionLoop_Cons [of l' xs "c # x"] positionLoop_Cons [of l' xs x] by simp_all
      with Cons.IH [OF l'] sp Suc ls show ?thesis
        by simp
    qed
  qed
qed

lemma line_within:
  assumes "l < length (splitLines s)"
  shows "positionLoop (splitLines s) l + length (splitLines s ! l) \<le> length s"
  using assms
proof (induction s arbitrary: l)
  case Nil
  then show ?case
    by simp
next
  case (Cons c cs)
  let ?ls = "splitLines cs"
  obtain x xs where ls: "?ls = x # xs"
    using splitLines_nonempty [of cs] by (cases ?ls) auto
  show ?case
  proof (cases "c = 0x0A")
    case nl: True
    then have sp: "splitLines (c # cs) = [] # ?ls"
      by simp
    show ?thesis
    proof (cases l)
      case 0
      with sp show ?thesis by simp
    next
      case (Suc l')
      with Cons.prems sp have l': "l' < length ?ls"
        by simp
      then have "positionLoop ([] # ?ls) (Suc l') = 1 + positionLoop ?ls l'"
        using positionLoop_Cons [of l' ?ls "[]"] by simp
      with Cons.IH [OF l'] sp Suc show ?thesis
        by simp
    qed
  next
    case False
    then have sp: "splitLines (c # cs) = (c # x) # xs"
      by (simp add: ls)
    show ?thesis
    proof (cases l)
      case 0
      from Cons.IH [of 0] ls have "length x \<le> length cs"
        by simp
      with sp 0 show ?thesis
        by simp
    next
      case (Suc l')
      with Cons.prems sp ls have l': "Suc l' < length ?ls"
        by simp
      then have "l' \<le> length xs"
        by (simp add: ls)
      then have "positionLoop ((c # x) # xs) (Suc l') = Suc (length x) + 1 + positionLoop xs l'"
        and "positionLoop (x # xs) (Suc l') = length x + 1 + positionLoop xs l'"
        using positionLoop_Cons [of l' xs "c # x"] positionLoop_Cons [of l' xs x] by simp_all
      with Cons.IH [OF l'] sp Suc ls show ?thesis
        by simp
    qed
  qed
qed

text \<open>A piece of a line sits in the document at the line's offset plus its own.\<close>

lemma piece_at_offset:
  assumes "l < length (splitLines s)" and "p + n \<le> length (splitLines s ! l)"
  shows "take n (drop (positionLoop (splitLines s) l + p) s) = take n (drop p (splitLines s ! l))"
proof -
  let ?line = "splitLines s ! l" and ?off = "positionLoop (splitLines s) l"
  from line_at_offset [OF assms(1)] have "take n (drop p ?line) = take n (drop p (take (length ?line) (drop ?off s)))"
    by simp
  also have "\<dots> = take n (take (length ?line - p) (drop p (drop ?off s)))"
    by (simp add: drop_take)
  also from assms(2) have "\<dots> = take n (drop (?off + p) s)"
    by (simp add: min_def add.commute)
  finally show ?thesis
    by simp
qed

subsection \<open>Snippets are the words next to the token\<close>

lemma wordsOf_unfold:
  "wordsOf s =
     (let t = dropWhile isSpace s
      in if t = [] then []
         else takeWhile (\<lambda>c. \<not> isSpace c) t # wordsOf (dropWhile (\<lambda>c. \<not> isSpace c) t))"
  by (rule wordsOf.simps)

lemma wordsOf_Nil [simp]: "wordsOf [] = []"
  by (simp add: wordsOf_unfold)

lemma wordsOf_dropWhile: "wordsOf (dropWhile isSpace s) = wordsOf s"
  by (simp add: wordsOf_unfold [of s] wordsOf_unfold [of "dropWhile isSpace s"] dropWhile_idem)

lemma wordsOf_space_Cons: "isSpace c \<Longrightarrow> wordsOf (c # s) = wordsOf s"
  using wordsOf_dropWhile [of "c # s"] wordsOf_dropWhile [of s] by simp

lemma wordsOf_nonspace:
  assumes "s \<noteq> []" and "\<not> isSpace (hd s)"
  shows "wordsOf s = takeWhile (\<lambda>c. \<not> isSpace c) s # wordsOf (dropWhile (\<lambda>c. \<not> isSpace c) s)"
proof -
  from assms have "dropWhile isSpace s = s"
    by (cases s) simp_all
  with assms(1) show ?thesis
    by (simp add: wordsOf_unfold [of s])
qed

lemma splitWS_decompose:
  "splitWS s = takeWhile (\<lambda>c. \<not> isSpace c) s
     # (case dropWhile (\<lambda>c. \<not> isSpace c) s of [] \<Rightarrow> []
        | c # rest \<Rightarrow> splitWS (dropWhile isSpace rest))"
  by (induction s) simp_all

lemma splitWS_words:
  assumes "s \<noteq> []" and "\<not> isSpace (hd s)" and "\<not> isSpace (last s)"
  shows "splitWS s = wordsOf s"
  using assms
proof (induction s rule: length_induct)
  case (1 s)
  let ?w = "takeWhile (\<lambda>c. \<not> isSpace c) s" and ?r = "dropWhile (\<lambda>c. \<not> isSpace c) s"
  have s: "s = ?w @ ?r"
    by simp
  show ?case
  proof (cases ?r)
    case Nil
    from "1.prems" have "wordsOf s = ?w # wordsOf ?r"
      by (simp add: wordsOf_nonspace)
    then have "wordsOf s = [?w]"
      by (simp only: Nil wordsOf_Nil)
    moreover have "splitWS s = [?w]"
      by (subst splitWS_decompose) (simp only: Nil list.case)
    ultimately show ?thesis
      by simp
  next
    case (Cons c rest)
    let ?t = "dropWhile isSpace rest"
    from Cons have c: "isSpace c"
      using hd_dropWhile [of "\<lambda>c. \<not> isSpace c" s] by auto
    from Cons have last: "last s = last (c # rest)"
      using s by (metis last_appendR list.distinct(1))
    have t_ne: "?t \<noteq> []"
    proof
      assume "?t = []"
      then have "\<forall>x\<in>set rest. isSpace x"
        by (simp add: dropWhile_eq_Nil_conv)
      with c have "isSpace (last (c # rest))"
        by (metis last_in_set list.distinct(1) set_ConsD)
      with last "1.prems" show False
        by simp
    qed
    then have hd_t: "\<not> isSpace (hd ?t)"
      using hd_dropWhile [of isSpace rest] by simp
    have "last (c # rest) = last ?t"
    proof -
      have "rest = takeWhile isSpace rest @ ?t"
        by simp
      with t_ne have "last rest = last ?t"
        by (metis last_appendR)
      moreover from t_ne have "rest \<noteq> []"
        by auto
      ultimately show ?thesis
        by simp
    qed
    with last "1.prems" have last_t: "\<not> isSpace (last ?t)"
      by simp
    have "length ?t \<le> length rest"
      by (simp add: length_dropWhile_le)
    also have "\<dots> < length ?r"
      by (simp add: Cons)
    also have "\<dots> \<le> length s"
      by (simp add: length_dropWhile_le)
    finally have "length ?t < length s" .
    with "1.IH" t_ne hd_t last_t have ih: "splitWS ?t = wordsOf ?t"
      by blast
    have "wordsOf ?r = wordsOf ?t"
      using c by (simp add: Cons wordsOf_space_Cons wordsOf_dropWhile)
    with ih "1.prems" show ?thesis
      by (simp add: splitWS_decompose [of s] wordsOf_nonspace Cons)
  qed
qed

lemma wordsOf_all_space: "\<forall>c\<in>set s. isSpace c \<Longrightarrow> wordsOf s = []"
  by (simp add: wordsOf_unfold [of s] dropWhile_eq_Nil_conv)

lemma wordsOf_append_space:
  assumes "\<forall>c\<in>set v. isSpace c"
  shows "wordsOf (u @ v) = wordsOf u"
proof (induction u rule: length_induct)
  case (1 u)
  let ?t = "dropWhile isSpace u"
  show ?case
  proof (cases "?t = []")
    case True
    then have "\<forall>c\<in>set u. isSpace c"
      by (simp add: dropWhile_eq_Nil_conv)
    with assms have "\<forall>c\<in>set (u @ v). isSpace c" and "wordsOf u = []"
      by (auto simp: wordsOf_all_space)
    then show ?thesis
      by (simp add: wordsOf_all_space)
  next
    case False
    then have hd: "\<not> isSpace (hd ?t)"
      using hd_dropWhile [of isSpace u] by simp
    from False obtain x where x: "x \<in> set u" "\<not> isSpace x"
      by (auto simp: dropWhile_eq_Nil_conv)
    then have tv: "dropWhile isSpace (u @ v) = ?t @ v"
      by (simp add: dropWhile_append1)
    let ?w = "takeWhile (\<lambda>c. \<not> isSpace c) ?t" and ?r = "dropWhile (\<lambda>c. \<not> isSpace c) ?t"
    have split: "takeWhile (\<lambda>c. \<not> isSpace c) (?t @ v) = ?w
        \<and> dropWhile (\<lambda>c. \<not> isSpace c) (?t @ v) = ?r @ v"
    proof (cases "\<forall>c\<in>set ?t. \<not> isSpace c")
      case True
      then have w: "?w = ?t" and r: "?r = []"
        by simp_all
      from assms have v: "takeWhile (\<lambda>c. \<not> isSpace c) v = []"
        "dropWhile (\<lambda>c. \<not> isSpace c) v = v"
        by (cases v; simp)+
      from True have "takeWhile (\<lambda>c. \<not> isSpace c) (?t @ v) = ?t @ takeWhile (\<lambda>c. \<not> isSpace c) v"
        and "dropWhile (\<lambda>c. \<not> isSpace c) (?t @ v) = dropWhile (\<lambda>c. \<not> isSpace c) v"
        by (simp_all add: takeWhile_append2 dropWhile_append2)
      then show ?thesis
        by (simp only: v w r append_Nil append_Nil2 simp_thms)
    next
      case False
      then obtain y where "y \<in> set ?t" and "\<not> \<not> isSpace y"
        by blast
      then show ?thesis
        by (simp add: takeWhile_append1 dropWhile_append1)
    qed
    have "length ?r < length u"
    proof -
      from False hd have "?r = dropWhile (\<lambda>c. \<not> isSpace c) (tl ?t)"
        by (cases ?t) simp_all
      then have "length ?r \<le> length (tl ?t)"
        using length_dropWhile_le [of "\<lambda>c. \<not> isSpace c" "tl ?t"] by (simp only:)
      also from False have "\<dots> < length ?t"
        by (cases ?t) simp_all
      also have "\<dots> \<le> length u"
        by (simp add: length_dropWhile_le)
      finally show ?thesis .
    qed
    with "1.IH" have ih: "wordsOf (?r @ v) = wordsOf ?r"
      by blast
    have "wordsOf (u @ v) = wordsOf (?t @ v)"
      using wordsOf_dropWhile [of "u @ v"] tv by simp
    also from False hd have "\<dots> = ?w # wordsOf (?r @ v)"
      using split by (simp add: wordsOf_nonspace)
    also from False hd have "\<dots> = wordsOf ?t"
      using ih by (simp add: wordsOf_nonspace)
    finally show ?thesis
      by (simp add: wordsOf_dropWhile)
  qed
qed

lemma trim_decompose:
  "dropWhile isSpace s = trim s @ rev (takeWhile isSpace (rev (dropWhile isSpace s)))"
proof -
  let ?t = "dropWhile isSpace s"
  have "rev (takeWhile isSpace (rev ?t) @ dropWhile isSpace (rev ?t)) = rev (rev ?t)"
    by (simp only: takeWhile_dropWhile_id)
  then have "rev (dropWhile isSpace (rev ?t)) @ rev (takeWhile isSpace (rev ?t)) = ?t"
    by (simp only: rev_append rev_rev_ident)
  then show ?thesis
    by (simp only: trim_def)
qed

lemma wordsOf_trim: "wordsOf (trim s) = wordsOf s"
proof -
  let ?v = "rev (takeWhile isSpace (rev (dropWhile isSpace s)))"
  have "\<forall>c\<in>set ?v. isSpace c"
    by (auto dest: set_takeWhileD)
  then have "wordsOf (trim s @ ?v) = wordsOf (trim s)"
    by (rule wordsOf_append_space)
  with trim_decompose [of s] show ?thesis
    by (simp add: wordsOf_dropWhile)
qed

lemma trim_ends:
  assumes "trim s \<noteq> []"
  shows "\<not> isSpace (hd (trim s)) \<and> \<not> isSpace (last (trim s))"
proof -
  let ?t = "dropWhile isSpace s"
  from assms have rne: "dropWhile isSpace (rev ?t) \<noteq> []"
    by (simp add: trim_def)
  then have "\<not> isSpace (hd (dropWhile isSpace (rev ?t)))"
    by (rule hd_dropWhile)
  with rne have last: "\<not> isSpace (last (trim s))"
    by (simp add: trim_def last_rev)
  from assms trim_decompose [of s] have "hd ?t = hd (trim s)" and "?t \<noteq> []"
    by (metis hd_append2, metis append_is_Nil_conv)
  with hd_dropWhile [of isSpace s] have "\<not> isSpace (hd (trim s))"
    by simp
  with last show ?thesis
    by simp
qed

text \<open>After trimming, the split at white space gives the words, or one empty piece.\<close>

lemma splitWS_trim: "splitWS (trim s) = (if wordsOf s = [] then [[]] else wordsOf s)"
proof (cases "trim s = []")
  case True
  with wordsOf_trim [of s] show ?thesis
    by simp
next
  case False
  with trim_ends [of s] have "splitWS (trim s) = wordsOf (trim s)"
    by (simp add: splitWS_words)
  moreover from False trim_ends [of s] have "wordsOf (trim s) \<noteq> []"
    by (simp add: wordsOf_nonspace)
  ultimately show ?thesis
    by (simp add: wordsOf_trim)
qed

lemma todoText_words:
  "todoText line p = join (firstUpTo 10 (wordsOf (drop (p + 4) line)))"
  by (simp add: todoText_def firstUpTo_def splitWS_trim Let_def)

lemma tkText_words:
  "tkText line p = join (lastUpTo 3 (wordsOf (take p line)))"
proof -
  have "rev (take n (rev xs)) = drop (length xs - n) xs" for n and xs :: "jsstring list"
    by (simp add: take_rev)
  then show ?thesis
    by (simp add: tkText_def lastUpTo_def splitWS_trim Let_def)
qed

lemma wordsOf_word:
  "w \<in> set (wordsOf s) \<Longrightarrow> w \<noteq> [] \<and> (\<forall>c\<in>set w. \<not> isSpace c)"
proof (induction s rule: length_induct)
  case (1 s)
  let ?t = "dropWhile isSpace s"
  show ?case
  proof (cases "?t = []")
    case True
    then have "wordsOf s = []"
      by (simp add: wordsOf_all_space dropWhile_eq_Nil_conv)
    with "1.prems" show ?thesis
      by simp
  next
    case False
    then have hd: "\<not> isSpace (hd ?t)"
      by (rule hd_dropWhile)
    let ?w = "takeWhile (\<lambda>c. \<not> isSpace c) ?t" and ?r = "dropWhile (\<lambda>c. \<not> isSpace c) ?t"
    from False hd have "wordsOf ?t = ?w # wordsOf ?r"
      by (rule wordsOf_nonspace)
    then have unf: "wordsOf s = ?w # wordsOf ?r"
      by (simp only: wordsOf_dropWhile)
    from False hd have w_ne: "?w \<noteq> []"
      by (cases ?t) simp_all
    have w_ns: "\<forall>c\<in>set ?w. \<not> isSpace c"
      using set_takeWhileD [of _ "\<lambda>c. \<not> isSpace c" ?t] by blast
    have "length ?r < length s"
    proof -
      from False hd have "?r = dropWhile (\<lambda>c. \<not> isSpace c) (tl ?t)"
        by (cases ?t) simp_all
      then have "length ?r \<le> length (tl ?t)"
        using length_dropWhile_le [of "\<lambda>c. \<not> isSpace c" "tl ?t"] by (simp only:)
      also from False have "\<dots> < length ?t"
        by (cases ?t) simp_all
      also have "\<dots> \<le> length s"
        by (simp add: length_dropWhile_le)
      finally show ?thesis .
    qed
    with "1.IH" have ih: "w \<in> set (wordsOf ?r) \<Longrightarrow> w \<noteq> [] \<and> (\<forall>c\<in>set w. \<not> isSpace c)"
      by blast
    from "1.prems" unf have "w = ?w \<or> w \<in> set (wordsOf ?r)"
      by (simp only: set_simps insert_iff)
    then show ?thesis
    proof
      assume "w = ?w"
      with w_ne w_ns show ?thesis
        by (simp only: simp_thms)
    next
      assume "w \<in> set (wordsOf ?r)"
      then show ?thesis
        by (rule ih)
    qed
  qed
qed

lemma isSpace_blank: "isSpace 0x20"
  by (simp add: isSpace_def)

lemma wordsOf_single:
  assumes "w \<noteq> []" and "\<forall>c\<in>set w. \<not> isSpace c" and that: "rest = [] \<or> isSpace (hd rest)"
  shows "wordsOf (w @ rest) = w # wordsOf rest"
proof -
  from assms(1,2) have hd: "\<not> isSpace (hd (w @ rest))"
    by (cases w) simp_all
  from assms(1) have ne: "w @ rest \<noteq> []"
    by simp
  from that have "takeWhile (\<lambda>c. \<not> isSpace c) rest = []"
    by (cases rest) auto
  moreover from that have "dropWhile (\<lambda>c. \<not> isSpace c) rest = rest"
    by (cases rest) auto
  moreover note assms(2)
  ultimately
  have "takeWhile (\<lambda>c. \<not> isSpace c) (w @ rest) = w"
    and "dropWhile (\<lambda>c. \<not> isSpace c) (w @ rest) = rest"
    by (simp_all add: takeWhile_append2 dropWhile_append2)
  with wordsOf_nonspace [OF ne hd] show ?thesis
    by simp
qed

lemma wordsOf_join:
  assumes "\<forall>w\<in>set ws. w \<noteq> [] \<and> (\<forall>c\<in>set w. \<not> isSpace c)"
  shows "wordsOf (join ws) = ws"
  using assms
proof (induction ws rule: join.induct)
  case 1
  then show ?case
    by simp
next
  case (2 w)
  then have "wordsOf (w @ []) = w # wordsOf []"
    by (intro wordsOf_single) simp_all
  then show ?case
    by simp
next
  case (3 w v ws)
  then have "wordsOf (w @ (0x20 # join (v # ws))) = w # wordsOf (0x20 # join (v # ws))"
    by (intro wordsOf_single) (simp_all add: isSpace_blank)
  also have "wordsOf (0x20 # join (v # ws)) = wordsOf (join (v # ws))"
    by (rule wordsOf_space_Cons) (rule isSpace_blank)
  also from 3 have "\<dots> = v # ws"
    by simp
  finally show ?case
    by simp
qed

lemma singleSpaced_join_words:
  assumes "set ws \<subseteq> set (wordsOf s)"
  shows "singleSpaced (join ws)"
proof -
  from assms have "\<forall>w\<in>set ws. w \<noteq> [] \<and> (\<forall>c\<in>set w. \<not> isSpace c)"
    using wordsOf_word by blast
  then show ?thesis
    by (simp add: singleSpaced_def wordsOf_join)
qed

lemma snippet_singleSpaced: "singleSpaced (snippet k line p)"
proof (cases k)
  case TODO
  have "set (firstUpTo 10 (wordsOf (drop (p + 4) line))) \<subseteq> set (wordsOf (drop (p + 4) line))"
    by (simp add: firstUpTo_def set_take_subset)
  with TODO show ?thesis
    by (simp add: todoText_words singleSpaced_join_words)
next
  case TK
  have "set (lastUpTo 3 (wordsOf (take p line))) \<subseteq> set (wordsOf (take p line))"
    using set_take_subset [of 3 "rev (wordsOf (take p line))"] by (simp add: lastUpTo_def)
  with TK show ?thesis
    by (simp add: tkText_words singleSpaced_join_words)
qed

subsection \<open>The emitted items are the matches\<close>

lemma lineItems_set:
  "set (lineItems lines (l, line)) = {mkItem k lines line l p |k p. matchAt k line p}"
proof -
  have "A TODO \<union> A TK = (\<Union>k. A k)" for A :: "kind \<Rightarrow> TodoTkItem set"
  proof
    show "A TODO \<union> A TK \<subseteq> (\<Union>k. A k)"
      by blast
    show "(\<Union>k. A k) \<subseteq> A TODO \<union> A TK"
    proof
      fix x
      assume "x \<in> (\<Union>k. A k)"
      then obtain k where "x \<in> A k"
        by blast
      then show "x \<in> A TODO \<union> A TK"
        by (cases k) simp_all
    qed
  qed
  then have "set (lineItems lines (l, line))
      = (\<Union>k. mkItem k lines line l ` {p. matchAt k line p})"
    by (simp add: lineItems_def execAll_set)
  also have "\<dots> = {mkItem k lines line l p |k p. matchAt k line p}"
    by blast
  finally show ?thesis .
qed

lemma parseContent_set:
  "set (parseContent content)
    = {mkItem k (splitLines content) (splitLines content ! l) l p |k l p.
        l < length (splitLines content) \<and> matchAt k (splitLines content ! l) p}"
proof -
  let ?ls = "splitLines content"
  have "set (parseContent content) = (\<Union>il\<in>set (enumerate 0 ?ls). set (lineItems ?ls il))"
    by (simp add: parseContent_closed)
  also have "\<dots> = (\<Union>l\<in>{..<length ?ls}. set (lineItems ?ls (l, ?ls ! l)))"
  proof -
    have "set (enumerate 0 ?ls) = (\<lambda>l. (l, ?ls ! l)) ` {..<length ?ls}"
      by (auto simp: in_set_enumerate_eq)
    then show ?thesis
      by simp
  qed
  also have "\<dots> = (\<Union>l\<in>{..<length ?ls}. {mkItem k ?ls (?ls ! l) l p |k p. matchAt k (?ls ! l) p})"
    by (simp only: lineItems_set)
  also have "\<dots> = {mkItem k ?ls (?ls ! l) l p |k l p. l < length ?ls \<and> matchAt k (?ls ! l) p}"
    by blast
  finally show ?thesis .
qed

lemma positionLoop_sum_nth:
  "positionLoop ls l = (\<Sum>i<l. length (ls ! i) + 1)"
  by (induction l) simp_all

subsection \<open>Matches are the occurrences between word boundaries\<close>

lemma occursAt_wordchars:
  assumes "occursAt k s i" and "i \<le> m" and "m < i + length (token k)"
  shows "m < length s \<and> isWordChar (s ! m)"
proof -
  let ?n = "length (token k)"
  from assms(1) have bound: "i + ?n \<le> length s"
    and eq: "map canonicalize (take ?n (drop i s)) = token k"
    by (simp_all add: occursAt_def)
  from assms(2,3) bound have m: "m < length s" and mi: "m - i < ?n"
    by simp_all
  from eq have "map canonicalize (take ?n (drop i s)) ! (m - i) = token k ! (m - i)"
    by simp
  moreover from mi bound assms(2)
  have "map canonicalize (take ?n (drop i s)) ! (m - i) = canonicalize (s ! m)"
    by simp
  ultimately have "canonicalize (s ! m) = token k ! (m - i)"
    by simp
  with mi have "canonicalize (s ! m) \<in> set (token k)"
    by simp
  with m show ?thesis
    by (simp add: canonicalize_wordchar)
qed

lemma matchAt_iff:
  "matchAt k s i \<longleftrightarrow> occursAt k s i \<and> \<not> adjacentTo isWordChar k s i"
proof (cases "occursAt k s i")
  case False
  then show ?thesis
    by (auto simp: matchAt_def occursAt_def)
next
  case True
  let ?n = "length (token k)"
  have n: "0 < ?n"
    by (rule token_length_pos)
  from True have bound: "i + ?n \<le> length s"
    by (simp add: occursAt_def)
  from n have "i \<le> i" and "i < i + ?n" and "i \<le> i + ?n - 1" and "i + ?n - 1 < i + ?n"
    by linarith+
  with occursAt_wordchars [OF True]
  have first: "i < length s \<and> isWordChar (s ! i)"
    and last: "i + ?n - 1 < length s \<and> isWordChar (s ! (i + ?n - 1))"
    by blast+
  from first bound have b1: "isWordBoundary s i \<longleftrightarrow> \<not> (0 < i \<and> isWordChar (s ! (i - 1)))"
    by (auto simp: isWordBoundary_def)
  from n have "0 < i + ?n"
    by linarith
  with last have b2: "isWordBoundary s (i + ?n)
      \<longleftrightarrow> \<not> (i + ?n < length s \<and> isWordChar (s ! (i + ?n)))"
    by (simp add: isWordBoundary_def)
  from True have "matchAt k s i \<longleftrightarrow> isWordBoundary s i \<and> isWordBoundary s (i + ?n)"
    by (auto simp: matchAt_def occursAt_def)
  with b1 b2 True show ?thesis
    by (auto simp: adjacentTo_def)
qed

lemma emitted_iff:
  "emitted content k l i
    \<longleftrightarrow> l < length (splitLines content) \<and> matchAt k (splitLines content ! l) i"
proof
  let ?ls = "splitLines content"
  assume "emitted content k l i"
  then obtain it where "it \<in> set (parseContent content)"
    and flds: "item_type it = k" "item_line it = l" "item_position it = positionLoop ?ls l + i"
    by (auto simp: emitted_def list_ex_iff)
  then obtain k' l' p' where "it = mkItem k' ?ls (?ls ! l') l' p'"
    and "l' < length ?ls" and "matchAt k' (?ls ! l') p'"
    unfolding parseContent_set by blast
  with flds show "l < length ?ls \<and> matchAt k (?ls ! l) i"
    by (simp add: mkItem_def)
next
  let ?ls = "splitLines content"
  assume "l < length ?ls \<and> matchAt k (?ls ! l) i"
  then have "mkItem k ?ls (?ls ! l) l i \<in> set (parseContent content)"
    unfolding parseContent_set by blast
  then show "emitted content k l i"
    unfolding emitted_def list_ex_iff by (rule bexI [rotated]) (simp add: mkItem_def)
qed

subsection \<open>The order of the output\<close>

lemma sorted_wrt_lineItems:
  assumes same: "\<And>k p q. p < q \<Longrightarrow> R (mkItem k lines line l p) (mkItem k lines line l q)"
    and kinds: "\<And>p q. R (mkItem TODO lines line l p) (mkItem TK lines line l q)"
  shows "sorted_wrt R (lineItems lines (l, line))"
proof -
  have "sorted_wrt R (map (mkItem k lines line l) (execAll k line 0))" for k
  proof -
    have "sorted_wrt (\<lambda>p q. R (mkItem k lines line l p) (mkItem k lines line l q)) (execAll k line 0)"
      using execAll_sorted [of k line 0] same by (rule sorted_wrt_mono_rel [rotated]) 
    then show ?thesis
      by (simp add: sorted_wrt_map)
  qed
  with kinds show ?thesis
    by (simp add: lineItems_def sorted_wrt_append)
qed

lemma lineItems_mkItem:
  "it \<in> set (lineItems lines (l, line)) \<Longrightarrow> \<exists>k p. it = mkItem k lines line l p"
  unfolding lineItems_set by blast

lemma sorted_wrt_concat_lineItems:
  assumes same: "\<And>k l line p q. p < q \<Longrightarrow> R (mkItem k lines line l p) (mkItem k lines line l q)"
    and kinds: "\<And>l line p q. R (mkItem TODO lines line l p) (mkItem TK lines line l q)"
    and later: "\<And>k k' l l' line line' p q. l < l'
      \<Longrightarrow> R (mkItem k lines line l p) (mkItem k' lines line' l' q)"
  shows "sorted_wrt R (concat (map (lineItems lines) (enumerate n ls)))"
proof (induction ls arbitrary: n)
  case Nil
  show ?case
    by simp
next
  case (Cons line ls)
  have here: "sorted_wrt R (lineItems lines (n, line))"
    using same kinds by (rule sorted_wrt_lineItems)
  have cross: "R a b" if a: "a \<in> set (lineItems lines (n, line))"
    and b: "b \<in> set (concat (map (lineItems lines) (enumerate (Suc n) ls)))" for a b
  proof -
    from a obtain k p where a': "a = mkItem k lines line n p"
      by (auto dest: lineItems_mkItem)
    from b obtain l' line' where "(l', line') \<in> set (enumerate (Suc n) ls)"
      and "b \<in> set (lineItems lines (l', line'))"
      by auto
    then obtain k' q where "b = mkItem k' lines line' l' q" and "n < l'"
      by (auto dest: lineItems_mkItem simp: in_set_enumerate_eq)
    with a' later show ?thesis
      by simp
  qed
  from here Cons.IH [of "Suc n"] cross show ?case
    by (simp add: sorted_wrt_append)
qed

lemma distinct_map_sorted_wrt:
  "distinct (map f xs) \<longleftrightarrow> sorted_wrt (\<lambda>a b. f a \<noteq> f b) xs"
  by (induction xs) auto

lemma itemTriple_mkItem: "itemTriple lines (mkItem k lines line l p) = (l, p, k)"
  by (simp add: itemTriple_def mkItem_def)

section \<open>Properties of the view\<close>

subsection \<open>The bookkeeping of the timers\<close>

lemma timersOk_fields:
  assumes "timers st' = timers st" and "nextHandle st' = nextHandle st"
    and "pollInterval st' = pollInterval st" and "updateTimeout st' = updateTimeout st"
  shows "timersOk st' = timersOk st"
  using assms by (simp add: timersOk_def)

lemma timersOk_initial: "timersOk (initial h)"
  by (simp add: timersOk_def initial_def)

lemma timersOk_clearTimer: "timersOk st \<Longrightarrow> timersOk (clearTimer h st)"
  by (auto simp: timersOk_def clearTimer_def list_all_iff distinct_map_filter)

lemma no_monitor_without_handle:
  assumes "timersOk st" and "pollInterval st = None"
  shows "monitors st = []"
  using assms by (auto simp: timersOk_def monitors_def list_all_iff filter_empty_conv)

lemma no_refresh_without_handle:
  assumes "timersOk st" and "updateTimeout st = None"
  shows "pendingRefreshes st = []"
  using assms by (auto simp: timersOk_def pendingRefreshes_def list_all_iff filter_empty_conv)

lemma monitors_cleared:
  assumes "timersOk st" and "pollInterval st = Some h"
  shows "monitors (clearTimer h st) = []"
  using assms
  by (auto simp: timersOk_def monitors_def clearTimer_def list_all_iff filter_empty_conv)

lemma refreshes_cleared:
  assumes "timersOk st" and "updateTimeout st = Some h"
  shows "pendingRefreshes (clearTimer h st) = []"
  using assms
  by (auto simp: timersOk_def pendingRefreshes_def clearTimer_def list_all_iff filter_empty_conv)

text \<open>A fresh interval may be added once no interval is left.\<close>

lemma timersOk_add_interval:
  assumes "timersOk st" and "monitors st = []"
  shows "timersOk ((snd (setInterval tf period st))\<lparr>pollInterval := Some (fst (setInterval tf period st))\<rparr>)"
  using assms
  by (auto simp: timersOk_def monitors_def setInterval_def list_all_iff filter_empty_conv)

lemma timersOk_add_debounced:
  assumes "timersOk st" and "pendingRefreshes st = []"
  shows "timersOk ((snd (setTimeout Debounced delay st))\<lparr>updateTimeout := Some (fst (setTimeout Debounced delay st))\<rparr>)"
  using assms
  by (auto simp: timersOk_def pendingRefreshes_def setTimeout_def list_all_iff filter_empty_conv)

lemma timersOk_add_other:
  assumes "timersOk st" and "cb \<noteq> Debounced"
  shows "timersOk (snd (setTimeout cb delay st))"
  using assms
  by (auto simp: timersOk_def setTimeout_def list_all_iff)

lemma timersOk_drop_poll:
  assumes "timersOk st" and "pollInterval st = Some h"
  shows "timersOk ((clearInterval h st)\<lparr>pollInterval := None\<rparr>)"
    and "monitors ((clearInterval h st)\<lparr>pollInterval := None\<rparr>) = []"
proof -
  from monitors_cleared [OF assms]
  show m: "monitors ((clearInterval h st)\<lparr>pollInterval := None\<rparr>) = []"
    by (simp add: clearInterval_def monitors_def)
  from timersOk_clearTimer [OF assms(1), of h] m
  show "timersOk ((clearInterval h st)\<lparr>pollInterval := None\<rparr>)"
    by (auto simp: timersOk_def clearInterval_def monitors_def list_all_iff filter_empty_conv)
qed

lemma timersOk_drop_timeout:
  assumes "timersOk st" and "updateTimeout st = Some h"
  shows "timersOk ((clearTimeout h st)\<lparr>updateTimeout := None\<rparr>)"
proof -
  from refreshes_cleared [OF assms]
  have "pendingRefreshes ((clearTimeout h st)\<lparr>updateTimeout := None\<rparr>) = []"
    by (simp add: clearTimeout_def pendingRefreshes_def)
  with timersOk_clearTimer [OF assms(1), of h] show ?thesis
    by (auto simp: timersOk_def clearTimeout_def pendingRefreshes_def list_all_iff filter_empty_conv)
qed

lemma timersOk_setupEditorChangeListener:
  assumes "timersOk st"
  shows "timersOk (setupEditorChangeListener v st)"
proof -
  let ?st1 = "st\<lparr>currentMarkdownView := Some v\<rparr>"
  let ?st2 = "case pollInterval ?st1 of None \<Rightarrow> ?st1 | Some h \<Rightarrow> clearInterval h ?st1"
  from assms have ok1: "timersOk ?st1"
    by (simp add: timersOk_def)
  have "timersOk ?st2 \<and> monitors ?st2 = []"
  proof (cases "pollInterval st")
    case None
    with ok1 no_monitor_without_handle [of ?st1] show ?thesis
      by simp
  next
    case (Some h)
    with ok1 timersOk_clearTimer [of ?st1 h] monitors_cleared [of ?st1 h] show ?thesis
      by (simp add: clearInterval_def)
  qed
  then have "timersOk ((snd (setInterval (view_file (heap (app ?st1) v)) 500 ?st2))
      \<lparr>pollInterval := Some (fst (setInterval (view_file (heap (app ?st1) v)) 500 ?st2))\<rparr>)"
    by (intro timersOk_add_interval) simp_all
  then show ?thesis
    by (simp add: setupEditorChangeListener_def Let_def)
qed

lemma resolveView_fields:
  "timers (snd (resolveView st)) = timers st"
  "nextHandle (snd (resolveView st)) = nextHandle st"
  "pollInterval (snd (resolveView st)) = pollInterval st"
  "updateTimeout (snd (resolveView st)) = updateTimeout st"
  "app (snd (resolveView st)) = app st"
  "now (snd (resolveView st)) = now st"
  "items (snd (resolveView st)) = items st"
  by (simp_all add: resolveView_def Let_def split: option.splits)

lemma timersOk_noActiveFile: "timersOk (noActiveFile st) = timersOk st"
  by (simp add: noActiveFile_def timersOk_def)

lemma timersOk_update:
  assumes "timersOk st"
  shows "timersOk (update st)"
proof (cases "contentEl st")
  case None
  with assms show ?thesis
    by (simp add: update_def)
next
  case (Some d)
  let ?r = "resolveView (st\<lparr>contentEl := Some Blank\<rparr>)"
  let ?st1 = "snd ?r"
  from assms have ok1: "timersOk ?st1"
    by (simp add: timersOk_def resolveView_fields)
  show ?thesis
  proof (cases "fst ?r")
    case None
    with Some ok1 show ?thesis
      by (simp add: update_def Let_def timersOk_noActiveFile)
  next
    case v: (Some v)
    show ?thesis
    proof (cases "editor (heap (app ?st1) v)")
      case None
      with Some v ok1 show ?thesis
        by (simp add: update_def Let_def timersOk_noActiveFile)
    next
      case c: (Some content)
      show ?thesis
      proof (cases "view_file (heap (app ?st1) v)")
        case None
        with Some v c ok1 show ?thesis
          by (simp add: update_def Let_def timersOk_noActiveFile)
      next
        case p: (Some p)
        let ?st3 = "?st1\<lparr>currentFile := (if p = [] then None else Some p),
            currentMarkdownView := Some v, items := parseContent content\<rparr>"
        let ?st3' = "case pollInterval ?st3 of None \<Rightarrow> ?st3
            | Some h \<Rightarrow> (clearInterval h ?st3)\<lparr>pollInterval := None\<rparr>"
        let ?st4 = "if pollInterval ?st3 = None \<or> Some p \<noteq> currentFile ?st3
            then setupEditorChangeListener v ?st3' else ?st3"
        from ok1 have ok3: "timersOk ?st3"
          by (simp add: timersOk_def)
        have "timersOk ?st3'"
        proof (cases "pollInterval ?st3")
          case None
          with ok3 show ?thesis
            by simp
        next
          case (Some h)
          with timersOk_drop_poll(1) [OF ok3, of h] show ?thesis
            by simp
        qed
        then have "timersOk (setupEditorChangeListener v ?st3')"
          by (rule timersOk_setupEditorChangeListener)
        with ok3 have "timersOk ?st4"
          by (cases "pollInterval ?st3 = None \<or> Some p \<noteq> currentFile ?st3")
            (simp_all only: if_True if_False)
        then have "timersOk (?st4\<lparr>contentEl := Some (render (items ?st4))\<rparr>)"
          by (simp add: timersOk_def)
        moreover from Some v c p
        have "update st = ?st4\<lparr>contentEl := Some (render (items ?st4))\<rparr>"
          by (simp add: update_def Let_def)
        ultimately show ?thesis
          by simp
      qed
    qed
  qed
qed

lemma timersOk_scheduleUpdate:
  assumes "timersOk st"
  shows "timersOk (scheduleUpdate st)"
proof -
  let ?st1 = "case updateTimeout st of None \<Rightarrow> st | Some h \<Rightarrow> clearTimeout h st"
  have "timersOk ?st1 \<and> pendingRefreshes ?st1 = []"
  proof (cases "updateTimeout st")
    case None
    with assms no_refresh_without_handle [of st] show ?thesis
      by simp
  next
    case (Some h)
    with assms timersOk_clearTimer [of st h] refreshes_cleared [of st h] show ?thesis
      by (simp add: clearTimeout_def)
  qed
  then have "timersOk ((snd (setTimeout Debounced 200 ?st1))
      \<lparr>updateTimeout := Some (fst (setTimeout Debounced 200 ?st1))\<rparr>)"
    by (intro timersOk_add_debounced) simp_all
  then show ?thesis
    by (simp add: scheduleUpdate_def Let_def)
qed

lemma timersOk_stopPolling:
  assumes "timersOk st"
  shows "timersOk (stopPolling st)"
proof (cases "pollInterval st")
  case None
  with assms show ?thesis
    by (simp add: stopPolling_def timersOk_def)
next
  case (Some h)
  from timersOk_drop_poll(1) [OF assms Some]
  have "timersOk (((clearInterval h st)\<lparr>pollInterval := None\<rparr>)\<lparr>currentMarkdownView := None\<rparr>)"
    by (simp add: timersOk_def)
  with Some show ?thesis
    by (simp add: stopPolling_def)
qed

lemma timersOk_pollTick:
  assumes "timersOk st"
  shows "timersOk (pollTick tf st)"
  using assms timersOk_stopPolling [OF assms] timersOk_scheduleUpdate [OF assms]
  by (simp add: pollTick_def split: option.splits)

lemma timersOk_onOpen:
  assumes "timersOk st"
  shows "timersOk (onOpen st)"
proof -
  from assms have "timersOk (st\<lparr>contentEl := Some Blank\<rparr>)"
    by (simp add: timersOk_def)
  then show ?thesis
    unfolding onOpen_def by (rule timersOk_add_other) simp
qed

lemma timersOk_onClose:
  assumes "timersOk st"
  shows "timersOk (onClose st)"
proof -
  let ?st1 = "case updateTimeout st of None \<Rightarrow> st
      | Some h \<Rightarrow> (clearTimeout h st)\<lparr>updateTimeout := None\<rparr>"
  let ?st2 = "case pollInterval ?st1 of None \<Rightarrow> ?st1
      | Some h \<Rightarrow> (clearInterval h ?st1)\<lparr>pollInterval := None\<rparr>"
  from assms have ok1: "timersOk ?st1"
    by (cases "updateTimeout st") (simp_all add: timersOk_drop_timeout)
  then have "timersOk ?st2"
    by (cases "pollInterval ?st1") (simp_all add: timersOk_drop_poll(1))
  then have "timersOk (?st2\<lparr>currentMarkdownView := None\<rparr>)"
    by (simp add: timersOk_def)
  then show ?thesis
    by (simp add: onClose_def Let_def)
qed

lemma timersOk_runCallback:
  assumes "timersOk st"
  shows "timersOk (runCallback cb st)"
proof (cases cb)
  case Debounced
  with assms show ?thesis
    by (simp add: timersOk_update)
next
  case OpenFirst
  from assms have "timersOk (update st)"
    by (rule timersOk_update)
  then have "timersOk (snd (setTimeout OpenRetry 500 (update st)))"
    by (rule timersOk_add_other) simp
  with OpenFirst show ?thesis
    by simp
next
  case OpenRetry
  with assms show ?thesis
    by (simp add: timersOk_update)
qed

lemma timersOk_reschedule:
  assumes "timersOk st" and "map_of (timers st) h = Some (Interval due period tf)"
  shows "timersOk (st\<lparr>timers := map (\<lambda>e. if fst e = h
      then (h, Interval (due + period) period tf) else e) (timers st)\<rparr>)"
proof -
  let ?f = "\<lambda>e :: handle \<times> timer. if fst e = h then (h, Interval (due + period) period tf) else e"
  from assms(2) have mem: "(h, Interval due period tf) \<in> set (timers st)"
    by (rule map_of_SomeD)
  with assms(1) have poll: "pollInterval st = Some h"
    by (auto simp: timersOk_def list_all_iff)
  have "map fst (map ?f (timers st)) = map fst (timers st)"
    by (induction "timers st") auto
  with assms(1) have d: "distinct (map fst (map ?f (timers st)))"
    by (simp only: timersOk_def)
  have below: "fst (?f e) < nextHandle st" if "e \<in> set (timers st)" for e
    using that assms(1) by (auto simp: timersOk_def list_all_iff)
  have ivl: "isInterval (snd (?f e)) \<longrightarrow> pollInterval st = Some (fst (?f e))"
    if "e \<in> set (timers st)" for e
    using that assms(1) poll by (auto simp: timersOk_def list_all_iff)
  have deb: "isDebounced (snd (?f e)) \<longrightarrow> updateTimeout st = Some (fst (?f e))"
    if "e \<in> set (timers st)" for e
    using that assms(1) by (auto simp: timersOk_def list_all_iff)
  let ?st' = "st\<lparr>timers := map ?f (timers st)\<rparr>"
  have all: "\<forall>e'\<in>set (map ?f (timers st)). fst e' < nextHandle st
      \<and> (isInterval (snd e') \<longrightarrow> pollInterval st = Some (fst e'))
      \<and> (isDebounced (snd e') \<longrightarrow> updateTimeout st = Some (fst e'))"
  proof
    fix e'
    assume "e' \<in> set (map ?f (timers st))"
    then have "e' \<in> ?f ` set (timers st)"
      by (simp only: set_map)
    then obtain e where e: "e \<in> set (timers st)" and e': "e' = ?f e"
      by (rule imageE)
    from below [OF e] ivl [OF e] deb [OF e]
    show "fst e' < nextHandle st
      \<and> (isInterval (snd e') \<longrightarrow> pollInterval st = Some (fst e'))
      \<and> (isDebounced (snd e') \<longrightarrow> updateTimeout st = Some (fst e'))"
      unfolding e' by blast
  qed
  have fields: "timers ?st' = map ?f (timers st)" "nextHandle ?st' = nextHandle st"
    "pollInterval ?st' = pollInterval st" "updateTimeout ?st' = updateTimeout st"
    by simp_all
  from d all show ?thesis
    unfolding timersOk_def list_all_iff fields by blast
qed

lemma timersOk_fire:
  assumes "timersOk st"
  shows "timersOk (fire h st)"
proof (cases "map_of (timers st) h")
  case None
  with assms show ?thesis
    by (simp add: fire_def)
next
  case (Some t)
  show ?thesis
  proof (cases t)
    case (Timeout due cb)
    from assms have "timersOk (runCallback cb (clearTimer h st))"
      by (intro timersOk_runCallback timersOk_clearTimer)
    with assms Some Timeout show ?thesis
      by (simp add: fire_def)
  next
    case (Interval due period tf)
    with Some have "map_of (timers st) h = Some (Interval due period tf)"
      by simp
    with assms have "timersOk (pollTick tf (st\<lparr>timers := map (\<lambda>e. if fst e = h
        then (h, Interval (due + period) period tf) else e) (timers st)\<rparr>))"
      by (intro timersOk_pollTick timersOk_reschedule)
    with assms Some Interval show ?thesis
      by (simp add: fire_def)
  qed
qed

lemma timersOk_step:
  assumes "timersOk st"
  shows "timersOk (step e st)"
proof (cases e)
  case (HostChange h)
  with assms show ?thesis by (simp add: timersOk_def)
next
  case (Advance d)
  with assms show ?thesis by (simp add: timersOk_def)
next
  case Update
  with assms show ?thesis by (simp add: timersOk_update)
next
  case Modify
  with assms show ?thesis by (simp add: updateView_def timersOk_update)
next
  case (Fire h)
  with assms show ?thesis by (simp add: timersOk_fire)
next
  case Open
  with assms show ?thesis by (simp add: timersOk_onOpen)
next
  case Close
  with assms show ?thesis by (simp add: timersOk_onClose)
qed

lemma reachable_timersOk: "reachable st \<Longrightarrow> timersOk st"
  by (induction rule: reachable.induct) (simp_all add: timersOk_initial timersOk_step)

lemma reachable_run: "reachable st \<Longrightarrow> reachable (run es st)"
proof (induction es arbitrary: st)
  case Nil
  then show ?case by (simp add: run_def)
next
  case (Cons e es)
  from Cons.prems have "reachable (step e st)"
    by (rule reachable.after_step)
  from Cons.IH [OF this] show ?case
    by (simp add: run_def)
qed

subsection \<open>At most one monitor, at most one pending refresh\<close>

lemma one_handle_one_entry:
  assumes "distinct (map fst xs)" and "\<forall>e\<in>set xs. fst e = h"
  shows "length xs \<le> 1"
proof (cases xs)
  case Nil
  then show ?thesis by simp
next
  case (Cons x ys)
  show ?thesis
  proof (cases ys)
    case Nil
    with Cons show ?thesis by simp
  next
    case (Cons y zs)
    with \<open>xs = x # ys\<close> assms(2) have "fst x = fst y"
      by simp
    with Cons \<open>xs = x # ys\<close> assms(1) show ?thesis
      by simp
  qed
qed

lemma at_most_one_monitor:
  assumes "reachable st"
  shows "length (monitors st) \<le> 1 \<and> (\<forall>e\<in>set (monitors st). pollInterval st = Some (fst e))"
proof -
  from assms have ok: "timersOk st"
    by (rule reachable_timersOk)
  then have named: "\<forall>e\<in>set (monitors st). pollInterval st = Some (fst e)"
    by (auto simp: timersOk_def monitors_def list_all_iff)
  from ok have d: "distinct (map fst (monitors st))"
    by (simp add: timersOk_def monitors_def distinct_map_filter)
  show ?thesis
  proof (cases "pollInterval st")
    case None
    with ok have "monitors st = []"
      by (rule no_monitor_without_handle)
    then show ?thesis
      by simp
  next
    case (Some h)
    with named have "\<forall>e\<in>set (monitors st). fst e = h"
      by simp
    with d have "length (monitors st) \<le> 1"
      by (rule one_handle_one_entry)
    with named show ?thesis
      by simp
  qed
qed


subsection \<open>The comparison of the monitor\<close>

lemma itemsChanged_iff: "itemsChanged xs ys \<longleftrightarrow> \<not> sameSnippetsAndLines xs ys"
proof -
  let ?f = "\<lambda>i. (item_text i, item_line i)"
  have "map ?f xs = map ?f ys \<longleftrightarrow> list_all2 (=) (map ?f xs) (map ?f ys)"
    by (simp only: list.rel_eq)
  also have "\<dots> \<longleftrightarrow> list_all2 (\<lambda>x y. item_text x = item_text y \<and> item_line x = item_line y) xs ys"
    by (simp add: list_all2_map1 list_all2_map2)
  finally show ?thesis
    by (auto simp: itemsChanged_def sameSnippetsAndLines_def dest: list_all2_lengthD)
qed


subsection \<open>The debounced refresh\<close>




text \<open>\<open>update\<close> neither sets nor clears a debounced timeout.\<close>

lemma pendingRefreshes_fields:
  assumes "timers st' = timers st"
  shows "pendingRefreshes st' = pendingRefreshes st"
  using assms by (simp add: pendingRefreshes_def)



subsection \<open>A refresh renews the baseline\<close>










subsection \<open>A burst of detections\<close>



section \<open>The claims about the extractor\<close>

text \<open>
  Claim C1. For every input string, the position of each item that \<open>parseContent\<close> emits
  indexes the first code unit of its matched token in the original string: the item comes
  from a match at some in-line offset \<open>p\<close> of its line, its position is the sum of
  \<open>length line + 1\<close> over all earlier lines plus \<open>p\<close>, and the document holds at that
  position the very code units of the match, which spell the token up to case.
\<close>

theorem position_indexes_matched_token:
  assumes "it \<in> set (parseContent content)"
  shows "\<exists>p. item_line it < length (splitLines content)
    \<and> matchAt (item_type it) (splitLines content ! item_line it) p
    \<and> item_position it = (\<Sum>i<item_line it. length (splitLines content ! i) + 1) + p
    \<and> item_position it + length (token (item_type it)) \<le> length content
    \<and> take (length (token (item_type it))) (drop (item_position it) content)
        = take (length (token (item_type it))) (drop p (splitLines content ! item_line it))
    \<and> map canonicalize (take (length (token (item_type it))) (drop (item_position it) content))
        = token (item_type it)"
proof -
  let ?ls = "splitLines content"
  from assms obtain k l p where it: "it = mkItem k ?ls (?ls ! l) l p"
    and l: "l < length ?ls" and m: "matchAt k (?ls ! l) p"
    unfolding parseContent_set by blast
  let ?n = "length (token k)"
  from it have ty: "item_type it = k" and ln: "item_line it = l"
    and pos: "item_position it = positionLoop ?ls l + p"
    by (simp_all add: mkItem_def)
  from m have bound: "p + ?n \<le> length (?ls ! l)"
    and tok: "map canonicalize (take ?n (drop p (?ls ! l))) = token k"
    by (simp_all add: matchAt_def)
  from piece_at_offset [OF l bound]
  have piece: "take ?n (drop (positionLoop ?ls l + p) content) = take ?n (drop p (?ls ! l))" .
  from line_within [OF l] bound have "positionLoop ?ls l + p + ?n \<le> length content"
    by simp
  with l m piece tok have "l < length ?ls
    \<and> matchAt k (?ls ! l) p
    \<and> positionLoop ?ls l + p = (\<Sum>i<l. length (?ls ! i) + 1) + p
    \<and> positionLoop ?ls l + p + ?n \<le> length content
    \<and> take ?n (drop (positionLoop ?ls l + p) content) = take ?n (drop p (?ls ! l))
    \<and> map canonicalize (take ?n (drop (positionLoop ?ls l + p) content)) = token k"
    by (simp add: positionLoop_sum_nth)
  then show ?thesis
    unfolding ty ln pos by (rule exI)
qed

theorem position_indexes_matched_token_witness:
  "\<lparr>item_type = TK, item_text = js ''b'', item_line = 1, item_position = 4\<rparr>
      \<in> set (parseContent (js ''a\<newline>b tk''))
   \<and> (\<exists>p. (1::nat) < length (splitLines (js ''a\<newline>b tk''))
      \<and> matchAt TK (splitLines (js ''a\<newline>b tk'') ! 1) p
      \<and> (4::nat) = (\<Sum>i<1. length (splitLines (js ''a\<newline>b tk'') ! i) + 1) + p
      \<and> 4 + length (token TK) \<le> length (js ''a\<newline>b tk'')
      \<and> take (length (token TK)) (drop 4 (js ''a\<newline>b tk''))
          = take (length (token TK)) (drop p (splitLines (js ''a\<newline>b tk'') ! 1))
      \<and> map canonicalize (take (length (token TK)) (drop 4 (js ''a\<newline>b tk''))) = token TK)"
proof -
  have h: "\<lparr>item_type = TK, item_text = js ''b'', item_line = 1, item_position = 4\<rparr>
      \<in> set (parseContent (js ''a\<newline>b tk''))"
    by code_simp
  from position_indexes_matched_token [OF h] h show ?thesis
    by simp
qed

text \<open>
  Claim C10. A token occurrence whose snippet side holds no words still produces an item,
  and the text of that item is the empty string: a match is never dropped for lack of
  snippet text. The side is the rest of the line after a TODO and the part of the line
  before a TK.
\<close>

theorem wordless_match_emits_empty_snippet:
  assumes "l < length (splitLines content)"
    and "matchAt k (splitLines content ! l) p"
    and "wordsOf (case k of TODO \<Rightarrow> drop (p + 4) (splitLines content ! l)
                          | TK \<Rightarrow> take p (splitLines content ! l)) = []"
  shows "\<lparr>item_type = k, item_text = [], item_line = l,
           item_position = (\<Sum>i<l. length (splitLines content ! i) + 1) + p\<rparr>
         \<in> set (parseContent content)"
proof -
  let ?ls = "splitLines content"
  from assms(3) have "snippet k (?ls ! l) p = []"
    by (cases k) (simp_all add: todoText_words tkText_words firstUpTo_def lastUpTo_def)
  then have "mkItem k ?ls (?ls ! l) l p = \<lparr>item_type = k, item_text = [], item_line = l,
      item_position = (\<Sum>i<l. length (?ls ! i) + 1) + p\<rparr>"
    by (simp add: mkItem_def positionLoop_sum_nth)
  moreover from assms(1,2) have "mkItem k ?ls (?ls ! l) l p \<in> set (parseContent content)"
    unfolding parseContent_set by blast
  ultimately show ?thesis
    by simp
qed

theorem wordless_match_emits_empty_snippet_witness:
  "parseContent (js ''TODO'') = [\<lparr>item_type = TODO, item_text = [], item_line = 0, item_position = 0\<rparr>]
   \<and> \<lparr>item_type = TK, item_text = [], item_line = 0, item_position = 0\<rparr>
       \<in> set (parseContent (js ''TK''))"
proof -
  have l: "0 < length (splitLines (js ''TK''))"
    and m: "matchAt TK (splitLines (js ''TK'') ! 0) 0"
    and w: "wordsOf (case TK of TODO \<Rightarrow> drop (0 + 4) (splitLines (js ''TK'') ! 0)
                             | TK \<Rightarrow> take 0 (splitLines (js ''TK'') ! 0)) = []"
    by code_simp+
  have "parseContent (js ''TODO'')
      = [\<lparr>item_type = TODO, item_text = [], item_line = 0, item_position = 0\<rparr>]"
    by code_simp
  with wordless_match_emits_empty_snippet [OF l m w] show ?thesis
    by simp
qed

text \<open>
  Claim C2, as stated: a token occurrence (up to case) is matched if and only if it is not
  adjacent to another alphanumeric character. This fails: the underscore is not
  alphanumeric, yet it is a word character of the regular expression, so the occurrence in
  \<open>TODO_\<close> has no alphanumeric neighbour and is still not matched.
\<close>

theorem match_iff_not_alphanumeric_neighbour_counterexample:
  "occursAt TODO (splitLines (js ''TODO_'') ! 0) 0
   \<and> \<not> adjacentTo isAlphaNum TODO (splitLines (js ''TODO_'') ! 0) 0
   \<and> \<not> emitted (js ''TODO_'') TODO 0 0"
  by code_simp

text \<open>
  Claim C2, amended: a token occurrence (TODO or TK, up to case) in a line of the input is
  emitted if and only if it is not adjacent to a word character of the regular expression
  (an ASCII letter, a digit or the underscore). In particular \<open>TODOLIST\<close> yields no item,
  \<open>a TODO b\<close> yields exactly one, and \<open>todo\<close>, \<open>Todo\<close> and \<open>TODO\<close> yield one each.
\<close>

theorem match_iff_not_word_char_neighbour:
  assumes "l < length (splitLines content)" and "occursAt k (splitLines content ! l) i"
  shows "(emitted content k l i \<longleftrightarrow> \<not> adjacentTo isWordChar k (splitLines content ! l) i)
    \<and> parseContent (js ''TODOLIST'') = []
    \<and> length (parseContent (js ''a TODO b'')) = 1
    \<and> map (\<lambda>s. length (parseContent (js s))) [''todo'', ''Todo'', ''TODO''] = [1, 1, 1]"
proof -
  from assms have "emitted content k l i
      \<longleftrightarrow> \<not> adjacentTo isWordChar k (splitLines content ! l) i"
    by (simp add: emitted_iff matchAt_iff)
  moreover have "parseContent (js ''TODOLIST'') = []"
    by code_simp
  moreover have "length (parseContent (js ''a TODO b'')) = 1"
    by code_simp
  moreover have "map (\<lambda>s. length (parseContent (js s))) [''todo'', ''Todo'', ''TODO''] = [1, 1, 1]"
    by code_simp
  ultimately show ?thesis
    by (simp only: simp_thms)
qed

theorem match_iff_not_word_char_neighbour_witness:
  "emitted (js ''a TODO b'') TODO 0 2 \<and> \<not> emitted (js ''TODOLIST'') TODO 0 0
   \<and> \<not> emitted (js ''TODO_'') TODO 0 0"
proof -
  have l1: "0 < length (splitLines (js ''a TODO b''))"
    and o1: "occursAt TODO (splitLines (js ''a TODO b'') ! 0) 2"
    and a1: "\<not> adjacentTo isWordChar TODO (splitLines (js ''a TODO b'') ! 0) 2"
    by code_simp+
  have l2: "0 < length (splitLines (js ''TODOLIST''))"
    and o2: "occursAt TODO (splitLines (js ''TODOLIST'') ! 0) 0"
    and a2: "adjacentTo isWordChar TODO (splitLines (js ''TODOLIST'') ! 0) 0"
    by code_simp+
  have l3: "0 < length (splitLines (js ''TODO_''))"
    and o3: "occursAt TODO (splitLines (js ''TODO_'') ! 0) 0"
    and a3: "adjacentTo isWordChar TODO (splitLines (js ''TODO_'') ! 0) 0"
    by code_simp+
  from match_iff_not_word_char_neighbour [OF l1 o1] a1
    match_iff_not_word_char_neighbour [OF l2 o2] a2
    match_iff_not_word_char_neighbour [OF l3 o3] a3
  show ?thesis
    by blast
qed

text \<open>
  Claim C3. Every emitted item comes from a match at some in-line offset \<open>p\<close> of its line.
  If its kind is TODO, its text is the first up-to-10 white-space-delimited words of the
  rest of the line after the 4-character token; if its kind is TK, its text is the last
  up-to-3 words of the part of the line before the token. The words are joined by one
  space, so the text is trimmed and single-spaced; fewer words than 10 or 3 just give
  fewer words.
\<close>

theorem snippet_is_adjacent_words:
  assumes "it \<in> set (parseContent content)"
  shows "\<exists>p. item_line it < length (splitLines content)
    \<and> matchAt (item_type it) (splitLines content ! item_line it) p
    \<and> item_position it = positionLoop (splitLines content) (item_line it) + p
    \<and> item_text it =
        (case item_type it of
           TODO \<Rightarrow> join (firstUpTo 10 (wordsOf (drop (p + 4) (splitLines content ! item_line it))))
         | TK \<Rightarrow> join (lastUpTo 3 (wordsOf (take p (splitLines content ! item_line it)))))
    \<and> singleSpaced (item_text it)"
proof -
  let ?ls = "splitLines content"
  from assms obtain k l p where it: "it = mkItem k ?ls (?ls ! l) l p"
    and l: "l < length ?ls" and m: "matchAt k (?ls ! l) p"
    unfolding parseContent_set by blast
  from it have ty: "item_type it = k" and ln: "item_line it = l"
    and pos: "item_position it = positionLoop ?ls l + p"
    and tx: "item_text it = snippet k (?ls ! l) p"
    by (simp_all add: mkItem_def)
  have "snippet k (?ls ! l) p =
      (case k of TODO \<Rightarrow> join (firstUpTo 10 (wordsOf (drop (p + 4) (?ls ! l))))
       | TK \<Rightarrow> join (lastUpTo 3 (wordsOf (take p (?ls ! l)))))"
    by (cases k) (simp_all add: todoText_words tkText_words)
  with l m snippet_singleSpaced [of k "?ls ! l" p]
  have "l < length ?ls \<and> matchAt k (?ls ! l) p
    \<and> positionLoop ?ls l + p = positionLoop ?ls l + p
    \<and> snippet k (?ls ! l) p =
        (case k of TODO \<Rightarrow> join (firstUpTo 10 (wordsOf (drop (p + 4) (?ls ! l))))
         | TK \<Rightarrow> join (lastUpTo 3 (wordsOf (take p (?ls ! l)))))
    \<and> singleSpaced (snippet k (?ls ! l) p)"
    by simp
  then show ?thesis
    unfolding ty ln pos tx by (rule exI)
qed

theorem snippet_is_adjacent_words_witness:
  "\<lparr>item_type = TK, item_text = js ''b c d'', item_line = 0, item_position = 9\<rparr>
      \<in> set (parseContent (js ''a  b c d TK''))
   \<and> (\<exists>p. 0 < length (splitLines (js ''a  b c d TK''))
        \<and> matchAt TK (splitLines (js ''a  b c d TK'') ! 0) p
        \<and> 9 = positionLoop (splitLines (js ''a  b c d TK'')) 0 + p
        \<and> js ''b c d'' = join (lastUpTo 3 (wordsOf (take p (splitLines (js ''a  b c d TK'') ! 0))))
        \<and> singleSpaced (js ''b c d''))"
proof -
  have h: "\<lparr>item_type = TK, item_text = js ''b c d'', item_line = 0, item_position = 9\<rparr>
      \<in> set (parseContent (js ''a  b c d TK''))"
    by code_simp
  from snippet_is_adjacent_words [OF h]
  have "\<exists>p. 0 < length (splitLines (js ''a  b c d TK''))
        \<and> matchAt TK (splitLines (js ''a  b c d TK'') ! 0) p
        \<and> 9 = positionLoop (splitLines (js ''a  b c d TK'')) 0 + p
        \<and> js ''b c d'' = join (lastUpTo 3 (wordsOf (take p (splitLines (js ''a  b c d TK'') ! 0))))
        \<and> singleSpaced (js ''b c d'')"
    by (simp only: TodoTkItem.select_convs kind.case)
  with h show ?thesis
    by (rule conjI)
qed

text \<open>
  Claim C4. The items come out in ascending line order; within one line every TODO comes
  before every TK, and the items of one kind come from left to right. So a TK that stands
  left of a TODO in its line is still emitted after it, as in \<open>x TK TODO y\<close>.
\<close>

theorem output_order:
  "sorted_wrt itemBefore (parseContent content)
   \<and> parseContent (js ''x TK TODO y'')
      = [\<lparr>item_type = TODO, item_text = js ''y'', item_line = 0, item_position = 5\<rparr>,
         \<lparr>item_type = TK, item_text = js ''x'', item_line = 0, item_position = 2\<rparr>]"
proof -
  have "sorted_wrt itemBefore
      (concat (map (lineItems (splitLines content)) (enumerate 0 (splitLines content))))"
    by (rule sorted_wrt_concat_lineItems) (simp_all add: itemBefore_def mkItem_def)
  then have "sorted_wrt itemBefore (parseContent content)"
    by (simp only: parseContent_closed)
  moreover have "parseContent (js ''x TK TODO y'')
      = [\<lparr>item_type = TODO, item_text = js ''y'', item_line = 0, item_position = 5\<rparr>,
         \<lparr>item_type = TK, item_text = js ''x'', item_line = 0, item_position = 2\<rparr>]"
    by code_simp
  ultimately show ?thesis
    by (simp only: simp_thms)
qed

theorem output_order_witness:
  "itemBefore \<lparr>item_type = TODO, item_text = js ''y'', item_line = 0, item_position = 5\<rparr>
      \<lparr>item_type = TK, item_text = js ''x'', item_line = 0, item_position = 2\<rparr>"
proof -
  from output_order [of "js ''x TK TODO y''"]
  have s: "sorted_wrt itemBefore (parseContent (js ''x TK TODO y''))"
    and e: "parseContent (js ''x TK TODO y'')
      = [\<lparr>item_type = TODO, item_text = js ''y'', item_line = 0, item_position = 5\<rparr>,
         \<lparr>item_type = TK, item_text = js ''x'', item_line = 0, item_position = 2\<rparr>]"
    by blast+
  from s show ?thesis
    unfolding e by simp
qed

text \<open>
  Claim C5. No two items of one extraction share the triple of line index, in-line offset
  and kind; and a match whose key has been seen already is skipped, leaving the items and
  the set of seen keys as they are.
\<close>

theorem no_duplicate_triples:
  "distinct (map (itemTriple (splitLines content)) (parseContent content))
   \<and> (positionKey l p k \<in> seen
      \<longrightarrow> matchStep k lines line l (its, seen) p = (its, seen))"
proof -
  let ?ls = "splitLines content"
  have "sorted_wrt (\<lambda>a b. itemTriple ?ls a \<noteq> itemTriple ?ls b)
      (concat (map (lineItems ?ls) (enumerate 0 ?ls)))"
    by (rule sorted_wrt_concat_lineItems) (simp_all add: itemTriple_mkItem)
  then have "distinct (map (itemTriple ?ls) (parseContent content))"
    by (simp only: parseContent_closed distinct_map_sorted_wrt)
  moreover have "positionKey l p k \<in> seen
      \<longrightarrow> matchStep k lines line l (its, seen) p = (its, seen)"
    by (simp add: matchStep_def)
  ultimately show ?thesis
    by (simp only: simp_thms)
qed

theorem no_duplicate_triples_witness:
  "map (itemTriple (splitLines (js ''TK TK\<newline>TK''))) (parseContent (js ''TK TK\<newline>TK''))
      = [(0, 0, TK), (0, 3, TK), (1, 0, TK)]
   \<and> distinct [(0::nat, 0::nat, TK), (0, 3, TK), (1, 0, TK)]
   \<and> matchStep TK [js ''TK''] (js ''TK'') 0 ([], {''0-0-TK''}) 0 = ([], {''0-0-TK''})"
proof -
  have e: "map (itemTriple (splitLines (js ''TK TK\<newline>TK''))) (parseContent (js ''TK TK\<newline>TK''))
      = [(0, 0, TK), (0, 3, TK), (1, 0, TK)]"
    by code_simp
  have k: "positionKey 0 0 TK = ''0-0-TK''"
    by code_simp
  from no_duplicate_triples [of "js ''TK TK\<newline>TK''" 0 0 TK "{''0-0-TK''}" "[js ''TK'']" "js ''TK''" "[]"]
  show ?thesis
    unfolding e k by simp
qed

section \<open>The claims about the view\<close>

text \<open>
  Claim C6. The change monitor treats the sampled list and the rendered list as equal
  exactly when they have equal length and the same snippet and line index at every index;
  positions are not compared. When the monitor samples its document and finds the lists
  equal in this sense, the tick changes nothing: no refresh is scheduled, whatever the
  positions are.
\<close>

theorem monitor_compares_snippets_and_lines:
  "(itemsChanged currentItems rendered \<longleftrightarrow> \<not> sameSnippetsAndLines currentItems rendered)
   \<and> (currentMarkdownView st = Some v \<and> editor (heap (app st) v) = Some content
        \<and> view_file (heap (app st) v) = Some p \<and> trackedFile = Some p
        \<and> currentFile st = Some p \<and> sameSnippetsAndLines (parseContent content) (items st)
      \<longrightarrow> pollTick trackedFile st = st)"
proof -
  have "pollTick trackedFile st = st"
    if "currentMarkdownView st = Some v" and "editor (heap (app st) v) = Some content"
      and "view_file (heap (app st) v) = Some p" and "trackedFile = Some p"
      and "currentFile st = Some p" and "sameSnippetsAndLines (parseContent content) (items st)"
    using that unfolding pollTick_def by (simp add: itemsChanged_iff)
  then show ?thesis
    using itemsChanged_iff [of currentItems rendered] by blast
qed

theorem monitor_compares_snippets_and_lines_witness:
  "pollTick (Some ''A.md'')
      (run [Open, HostChange (docHost (js ''x\<newline>TODO a'') ''A.md''), Update,
            HostChange (docHost (js ''yy\<newline>TODO a'') ''A.md'')] (initial emptyHost))
    = run [Open, HostChange (docHost (js ''x\<newline>TODO a'') ''A.md''), Update,
            HostChange (docHost (js ''yy\<newline>TODO a'') ''A.md'')] (initial emptyHost)
   \<and> map item_position (parseContent (js ''x\<newline>TODO a'')) = [2]
   \<and> map item_position (parseContent (js ''yy\<newline>TODO a'')) = [3]
   \<and> \<not> itemsChanged (parseContent (js ''yy\<newline>TODO a'')) (parseContent (js ''x\<newline>TODO a''))"
proof -
  let ?st = "run [Open, HostChange (docHost (js ''x\<newline>TODO a'') ''A.md''), Update,
      HostChange (docHost (js ''yy\<newline>TODO a'') ''A.md'')] (initial emptyHost)"
  have h: "currentMarkdownView ?st = Some 0 \<and> editor (heap (app ?st) 0) = Some (js ''yy\<newline>TODO a'')
      \<and> view_file (heap (app ?st) 0) = Some ''A.md'' \<and> Some ''A.md'' = Some ''A.md''
      \<and> currentFile ?st = Some ''A.md''
      \<and> sameSnippetsAndLines (parseContent (js ''yy\<newline>TODO a'')) (items ?st)"
    by code_simp
  have s: "sameSnippetsAndLines (parseContent (js ''yy\<newline>TODO a'')) (parseContent (js ''x\<newline>TODO a''))"
    by code_simp
  have p: "map item_position (parseContent (js ''x\<newline>TODO a'')) = [2]
      \<and> map item_position (parseContent (js ''yy\<newline>TODO a'')) = [3]"
    by code_simp
  from monitor_compares_snippets_and_lines
    [of "parseContent (js ''yy\<newline>TODO a'')" "parseContent (js ''x\<newline>TODO a'')"
      ?st 0 "js ''yy\<newline>TODO a''" "''A.md''" "Some ''A.md''"] h s p
  show ?thesis
    by blast
qed

text \<open>
  Claim C7, at its failing input. A monitor runs for \<open>A.md\<close>; the tracked view then shows
  \<open>B.md\<close>, and \<open>update\<close> resolves that document. The condition of \<open>update\<close> compares the
  path with \<open>currentFile\<close> after assigning it, so the running monitor is kept although it
  was started for \<open>A.md\<close>: after the refresh the current file is \<open>B.md\<close> and the one
  active monitor still tracks \<open>A.md\<close>. At its next tick that monitor stops itself, and no
  monitor is left for \<open>B.md\<close>.
\<close>

theorem update_keeps_monitor_of_other_document:
  "fst (resolveView (run [Open, HostChange (docHost (js ''TODO a'') ''A.md''), Update,
          HostChange (docHost (js ''TODO a'') ''B.md'')] (initial emptyHost))) = Some 0
   \<and> currentFile (run [Open, HostChange (docHost (js ''TODO a'') ''A.md''), Update,
          HostChange (docHost (js ''TODO a'') ''B.md''), Update] (initial emptyHost)) = Some ''B.md''
   \<and> monitors (run [Open, HostChange (docHost (js ''TODO a'') ''A.md''), Update,
          HostChange (docHost (js ''TODO a'') ''B.md''), Update] (initial emptyHost))
      = [(2, Interval 500 500 (Some ''A.md''))]
   \<and> monitors (run [Open, HostChange (docHost (js ''TODO a'') ''A.md''), Update,
          HostChange (docHost (js ''TODO a'') ''B.md''), Update, Advance 500, Fire 2]
          (initial emptyHost)) = []"
  by code_simp

text \<open>
  Claim C8, as stated: when \<open>update\<close> resolves no current document, any running change
  monitor is stopped as part of that refresh. This fails: a monitor runs for \<open>A.md\<close>, the
  document is closed, and after \<open>update\<close> has found no document the interval of the
  monitor is still active and \<open>pollInterval\<close> still names it.
\<close>

theorem no_document_stops_monitor_counterexample:
  "contentEl (run [Open, HostChange (docHost (js ''TODO a'') ''A.md''), Update,
        HostChange emptyHost] (initial emptyHost)) = Some (Outline (parseContent (js ''TODO a'')))
   \<and> fst (resolveView ((run [Open, HostChange (docHost (js ''TODO a'') ''A.md''), Update,
        HostChange emptyHost] (initial emptyHost))\<lparr>contentEl := Some Blank\<rparr>)) = None
   \<and> contentEl (update (run [Open, HostChange (docHost (js ''TODO a'') ''A.md''), Update,
        HostChange emptyHost] (initial emptyHost))) = Some NoActiveFile
   \<and> pollInterval (update (run [Open, HostChange (docHost (js ''TODO a'') ''A.md''), Update,
        HostChange emptyHost] (initial emptyHost))) = Some 2
   \<and> monitors (update (run [Open, HostChange (docHost (js ''TODO a'') ''A.md''), Update,
        HostChange emptyHost] (initial emptyHost))) = [(2, Interval 500 500 (Some ''A.md''))]"
  by code_simp

text \<open>
  Claim C8, amended: when \<open>update\<close> resolves no current document, it is not an error: the
  view shows the explicit empty state and the current file and the stored view are
  cleared. The refresh itself leaves a running change monitor as it is; the monitor stops
  itself at its next tick, after which no monitor is active.
\<close>

theorem no_document_refresh:
  assumes "reachable st" and "contentEl st \<noteq> None"
    and "fst (resolveView (st\<lparr>contentEl := Some Blank\<rparr>)) = None"
  shows "contentEl (update st) = Some NoActiveFile
    \<and> currentFile (update st) = None
    \<and> currentMarkdownView (update st) = None
    \<and> timers (update st) = timers st
    \<and> pollInterval (update st) = pollInterval st
    \<and> pollInterval (pollTick trackedFile (update st)) = None
    \<and> monitors (pollTick trackedFile (update st)) = []"
proof -
  let ?st1 = "snd (resolveView (st\<lparr>contentEl := Some Blank\<rparr>))"
  from assms(2,3) have upd: "update st = noActiveFile ?st1"
    by (auto simp: update_def Let_def)
  then have fields: "contentEl (update st) = Some NoActiveFile" "currentFile (update st) = None"
    "currentMarkdownView (update st) = None" "timers (update st) = timers st"
    "pollInterval (update st) = pollInterval st"
    by (simp_all add: noActiveFile_def resolveView_fields)
  from fields(3) have tick: "pollTick trackedFile (update st) = stopPolling (update st)"
    by (simp add: pollTick_def)
  from assms(1) have "timersOk (update st)"
    by (intro timersOk_update reachable_timersOk)
  then have "timersOk (stopPolling (update st))"
    by (rule timersOk_stopPolling)
  moreover have none: "pollInterval (stopPolling (update st)) = None"
    by (simp add: stopPolling_def split: option.splits)
  ultimately have "monitors (stopPolling (update st)) = []"
    by (rule no_monitor_without_handle)
  with fields tick none show ?thesis
    by simp
qed

theorem no_document_refresh_witness:
  "pollInterval (update (run [Open, HostChange (docHost (js ''TODO a'') ''A.md''), Update,
        HostChange emptyHost] (initial emptyHost))) = Some 2
   \<and> contentEl (update (run [Open, HostChange (docHost (js ''TODO a'') ''A.md''), Update,
        HostChange emptyHost] (initial emptyHost))) = Some NoActiveFile
   \<and> monitors (pollTick (Some ''A.md'') (update (run [Open,
        HostChange (docHost (js ''TODO a'') ''A.md''), Update,
        HostChange emptyHost] (initial emptyHost)))) = []"
proof -
  let ?st = "run [Open, HostChange (docHost (js ''TODO a'') ''A.md''), Update,
      HostChange emptyHost] (initial emptyHost)"
  have r: "reachable ?st"
    by (intro reachable_run reachable.at_start)
  have c: "contentEl ?st \<noteq> None"
    by code_simp
  have n: "fst (resolveView (?st\<lparr>contentEl := Some Blank\<rparr>)) = None"
    by code_simp
  have p: "pollInterval ?st = Some 2"
    by code_simp
  from no_document_refresh [OF r c n, of "Some ''A.md''"] p show ?thesis
    by simp
qed




end
